theory Spec2Isabelle
  imports Main "HOL-Library.Sublist" "HOL-Library.Log_Nat"
begin

section \<open>Strings\<close>

text \<open>
  A JavaScript string is a sequence of UTF-16 code units. The model covers the strings
  whose code units are below 256: a \<^typ>\<open>char\<close> is one such code unit (Latin-1), and
  \<open>toLowerCase\<close>, \<open>trim\<close> and the character classes of the regular expressions are
  written out for exactly that range.
\<close>

definition code_unit :: "char \<Rightarrow> nat" where
  "code_unit c = of_char c"

definition is_upper :: "char \<Rightarrow> bool" where
  \<comment> \<open>the code units \<open>String.prototype.toLowerCase\<close> changes: A-Z and the Latin-1 capitals
      U+00C0..U+00DE without the multiplication sign U+00D7\<close>
  "is_upper c =
     (let n = code_unit c
      in (65 \<le> n \<and> n \<le> 90) \<or> (192 \<le> n \<and> n \<le> 222 \<and> n \<noteq> 215))"

definition lower_char :: "char \<Rightarrow> char" where
  "lower_char c = (if is_upper c then char_of (code_unit c + 32) else c)"

definition toLowerCase :: "string \<Rightarrow> string" where
  "toLowerCase s = map lower_char s"

definition is_space :: "char \<Rightarrow> bool" where
  \<comment> \<open>the white space and line terminators of \<open>String.prototype.trim\<close> below U+0100:
      tab, line feed, vertical tab, form feed, carriage return, space, no-break space\<close>
  "is_space c = (code_unit c \<in> {9, 10, 11, 12, 13, 32, 160})"

definition trim :: "string \<Rightarrow> string" where
  "trim s = rev (dropWhile is_space (rev (dropWhile is_space s)))"

fun js_includes :: "string \<Rightarrow> string \<Rightarrow> bool" where
  \<comment> \<open>\<open>s.includes(t)\<close>: \<open>t\<close> occurs in \<open>s\<close> as a contiguous run\<close>
  "js_includes [] t = (t = [])"
| "js_includes (c # s) t = (prefix t (c # s) \<or> js_includes s t)"

function split_on :: "(char \<Rightarrow> bool) \<Rightarrow> string \<Rightarrow> string \<Rightarrow> string list" where
  \<comment> \<open>\<open>text.split(/[...]+/)\<close> for a class of separators: the pieces between maximal runs of
      separators, with an empty piece before a leading and after a trailing run; the second
      argument is the piece being read\<close>
  "split_on sep piece [] = [piece]"
| "split_on sep piece (c # cs) =
     (if sep c then piece # split_on sep [] (dropWhile sep cs)
      else split_on sep (piece @ [c]) cs)"
  by pat_completeness auto
termination
  by (relation "measure (\<lambda>(sep, piece, s). length s)")
     (auto simp: le_imp_less_Suc length_dropWhile_le)

fun set_add :: "'a list \<Rightarrow> 'a \<Rightarrow> 'a list" where
  \<comment> \<open>\<open>Set.prototype.add\<close> on a set kept in insertion order\<close>
  "set_add seen x = (if x \<in> set seen then seen else seen @ [x])"

definition array_from_set :: "'a list \<Rightarrow> 'a list" where
  \<comment> \<open>\<open>Array.from(new Set(xs))\<close>: each value once, in the order of its first occurrence\<close>
  "array_from_set xs = foldl set_add [] xs"

section \<open>App.tsx: normalizeUrl\<close>

text \<open>
  \<^verbatim>\<open>url.replace(/^(https?:\/\/)?/, '').replace(/\/$/, '').toLowerCase()\<close>

  The first pattern is anchored at the start and never fails: its optional group takes
  \<open>https://\<close> when the string starts with it (the greedy \<open>s?\<close> is tried first), otherwise
  \<open>http://\<close>, otherwise nothing. It is matched case-sensitively. The second pattern has
  no \<open>m\<close> flag, so \<open>$\<close> is the end of the string: it removes one final slash.
\<close>

definition strip_scheme :: "string \<Rightarrow> string" where
  "strip_scheme u =
     (if prefix ''https://'' u then drop 8 u
      else if prefix ''http://'' u then drop 7 u
      else u)"

definition strip_trailing_slash :: "string \<Rightarrow> string" where
  "strip_trailing_slash u = (if u \<noteq> [] \<and> last u = CHR ''/'' then butlast u else u)"

definition normalizeUrl :: "string \<Rightarrow> string" where
  "normalizeUrl url = toLowerCase (strip_trailing_slash (strip_scheme url))"

text \<open>
  The glossary's reading of the same function: lowercase first, then remove the scheme and
  the trailing slash.
\<close>

definition has_scheme :: "string \<Rightarrow> bool" where
  "has_scheme u = (prefix ''http://'' u \<or> prefix ''https://'' u)"

definition spec_normalizeUrl :: "string \<Rightarrow> string" where
  "spec_normalizeUrl url = strip_trailing_slash (strip_scheme (toLowerCase url))"

definition scheme_in_lowercase :: "string \<Rightarrow> bool" where
  \<comment> \<open>a scheme prefix of the url, if it has one in any letter case, is written in lowercase\<close>
  "scheme_in_lowercase url = (has_scheme (toLowerCase url) \<longrightarrow> has_scheme url)"

section \<open>Regular expressions\<close>

text \<open>
  The patterns of the source use only literals, character classes, grouping, \<open>?\<close>, \<open>*\<close>,
  \<open>+\<close> and counted repetition, so \<open>RegExp.prototype.test\<close> asks whether some string of a
  regular language occurs. The test is computed with derivatives.
\<close>

datatype rx = Nothing | Eps | Cls "char \<Rightarrow> bool" | Seq rx rx | Alt rx rx | Star rx

primrec nullable :: "rx \<Rightarrow> bool" where
  "nullable Nothing = False"
| "nullable Eps = True"
| "nullable (Cls P) = False"
| "nullable (Seq r s) = (nullable r \<and> nullable s)"
| "nullable (Alt r s) = (nullable r \<or> nullable s)"
| "nullable (Star r) = True"

fun seq' :: "rx \<Rightarrow> rx \<Rightarrow> rx" where
  "seq' Nothing s = Nothing"
| "seq' Eps s = s"
| "seq' r s = Seq r s"

fun alt' :: "rx \<Rightarrow> rx \<Rightarrow> rx" where
  "alt' Nothing s = s"
| "alt' r Nothing = r"
| "alt' r s = Alt r s"

primrec deriv :: "char \<Rightarrow> rx \<Rightarrow> rx" where
  "deriv c Nothing = Nothing"
| "deriv c Eps = Nothing"
| "deriv c (Cls P) = (if P c then Eps else Nothing)"
| "deriv c (Seq r s) =
     (if nullable r then alt' (seq' (deriv c r) s) (deriv c s) else seq' (deriv c r) s)"
| "deriv c (Alt r s) = alt' (deriv c r) (deriv c s)"
| "deriv c (Star r) = seq' (deriv c r) (Star r)"

definition matches :: "rx \<Rightarrow> string \<Rightarrow> bool" where
  \<comment> \<open>the whole string is in the language: a pattern between \<open>^\<close> and \<open>$\<close>\<close>
  "matches r s = nullable (foldl (\<lambda>r c. deriv c r) r s)"

definition found_in :: "rx \<Rightarrow> string \<Rightarrow> bool" where
  \<comment> \<open>a pattern without anchors: some part of the string is in the language\<close>
  "found_in r s = matches (Seq (Star (Cls (\<lambda>c. True))) (Seq r (Star (Cls (\<lambda>c. True))))) s"

text \<open>
  What the derivatives compute: the strings a pattern denotes.
\<close>

definition followed_by :: "string set \<Rightarrow> string set \<Rightarrow> string set" where
  "followed_by A B = {u @ v | u v. u \<in> A \<and> v \<in> B}"

inductive_set repeated :: "string set \<Rightarrow> string set" for A :: "string set" where
  none: "[] \<in> repeated A"
| more: "u \<in> A \<Longrightarrow> v \<in> repeated A \<Longrightarrow> u @ v \<in> repeated A"

primrec language :: "rx \<Rightarrow> string set" where
  "language Nothing = {}"
| "language Eps = {[]}"
| "language (Cls P) = {[c] | c. P c}"
| "language (Seq r s) = followed_by (language r) (language s)"
| "language (Alt r s) = language r \<union> language s"
| "language (Star r) = repeated (language r)"

definition after :: "char \<Rightarrow> string set \<Rightarrow> string set" where
  "after c A = {w. c # w \<in> A}"

definition lit :: "string \<Rightarrow> rx" where
  "lit s = foldr (\<lambda>c r. Seq (Cls (\<lambda>d. d = c)) r) s Eps"

definition opt :: "rx \<Rightarrow> rx" where
  "opt r = Alt r Eps"

definition plus :: "rx \<Rightarrow> rx" where
  "plus r = Seq r (Star r)"

fun rep :: "nat \<Rightarrow> rx \<Rightarrow> rx" where
  \<comment> \<open>\<open>r{n}\<close>\<close>
  "rep 0 r = Eps"
| "rep (Suc n) r = Seq r (rep n r)"

fun rep_upto :: "nat \<Rightarrow> rx \<Rightarrow> rx" where
  \<comment> \<open>\<open>r{0,n}\<close>\<close>
  "rep_upto 0 r = Eps"
| "rep_upto (Suc n) r = opt (Seq r (rep_upto n r))"

definition in_range :: "char \<Rightarrow> char \<Rightarrow> char \<Rightarrow> bool" where
  "in_range lo hi c = (code_unit lo \<le> code_unit c \<and> code_unit c \<le> code_unit hi)"

definition digit :: "char \<Rightarrow> bool" where
  "digit = in_range CHR ''0'' CHR ''9''"

definition lower_az :: "char \<Rightarrow> bool" where
  "lower_az = in_range CHR ''a'' CHR ''z''"

definition upper_az :: "char \<Rightarrow> bool" where
  "upper_az = in_range CHR ''A'' CHR ''Z''"

definition word_char :: "char \<Rightarrow> bool" where
  \<comment> \<open>\<open>\w\<close>\<close>
  "word_char c = (lower_az c \<or> upper_az c \<or> digit c \<or> c = CHR ''_'')"

definition swap_case :: "char \<Rightarrow> char" where
  "swap_case c =
     (if upper_az c then char_of (code_unit c + 32)
      else if lower_az c then char_of (code_unit c - 32)
      else c)"

primrec ignore_case :: "rx \<Rightarrow> rx" where
  \<comment> \<open>the \<open>i\<close> flag: a character matches when it or its other letter case is in the class.
      Below U+0100 only the letters A-Z and a-z have a case partner that the classes of the
      source can contain.\<close>
  "ignore_case Nothing = Nothing"
| "ignore_case Eps = Eps"
| "ignore_case (Cls P) = Cls (\<lambda>c. P c \<or> P (swap_case c))"
| "ignore_case (Seq r s) = Seq (ignore_case r) (ignore_case s)"
| "ignore_case (Alt r s) = Alt (ignore_case r) (ignore_case s)"
| "ignore_case (Star r) = Star (ignore_case r)"

section \<open>fileUtils.ts: the URL extractor\<close>

text \<open>
  \<^verbatim>\<open>/^(https?:\/\/)?([\da-z\.-]+)\.([a-z\.]{2,6})([\/\w \.-]*)*\/?$/\<close>
\<close>

definition urlRegex :: rx where
  "urlRegex =
     Seq (opt (Seq (lit ''http'') (Seq (opt (lit ''s'')) (lit ''://''))))
    (Seq (plus (Cls (\<lambda>c. digit c \<or> lower_az c \<or> c = CHR ''.'' \<or> c = CHR ''-'')))
    (Seq (lit ''.'')
    (Seq (Seq (rep 2 (Cls (\<lambda>c. lower_az c \<or> c = CHR ''.'')))
              (rep_upto 4 (Cls (\<lambda>c. lower_az c \<or> c = CHR ''.''))))
    (Seq (Star (Star (Cls (\<lambda>c. c = CHR ''/'' \<or> word_char c \<or> c = CHR '' '' \<or> c = CHR ''.''
                                 \<or> c = CHR ''-''))))
         (opt (lit ''/''))))))"

definition is_split_char :: "char \<Rightarrow> bool" where
  \<comment> \<open>\<open>[\n,;]\<close>\<close>
  "is_split_char c = (code_unit c = 10 \<or> c = CHR '','' \<or> c = CHR '';'')"

definition parseText :: "string \<Rightarrow> string list" where
  \<comment> \<open>the pattern carries the \<open>i\<close> flag here\<close>
  "parseText text =
     (let lines = split_on is_split_char [] text;
          urls = filter (\<lambda>line. length line > 0 \<and> matches (ignore_case urlRegex) line)
                   (map trim lines)
      in array_from_set urls)"

text \<open>
  \<open>parseFile\<close> reads the file with a \<open>FileReader\<close> and hands it to the spreadsheet library;
  both are outside the repository. The model starts from what they deliver: a read error,
  no data, an exception of the library, or the rows of the first sheet as the library's
  \<open>sheet_to_json(worksheet, {header: 1})\<close> returns them. A cell is a string or some other
  value (number, boolean, date, hole).
\<close>

datatype cell = StringCell string | OtherCell

datatype 'err file_input = ReadError 'err | NoData | LibraryError 'err | Rows "cell list list"

fun cell_urls :: "cell \<Rightarrow> string list" where
  \<comment> \<open>the body of the inner \<open>forEach\<close>; the pattern has no \<open>i\<close> flag here\<close>
  "cell_urls (StringCell s) = (let trimmed = trim s in if matches urlRegex trimmed then [trimmed] else [])"
| "cell_urls OtherCell = []"

definition parseFile :: "'err file_input \<Rightarrow> 'err + string list" where
  "parseFile file =
     (case file of
        ReadError err \<Rightarrow> Inl err
      | NoData \<Rightarrow> Inr []
      | LibraryError err \<Rightarrow> Inl err
      | Rows jsonData \<Rightarrow> Inr (array_from_set (concat (map (\<lambda>row. concat (map cell_urls row)) jsonData))))"

section \<open>JavaScript values\<close>

text \<open>
  What the controller reads of a thrown value: its \<open>status\<close>, \<open>code\<close> and \<open>message\<close>
  properties. \<open>Num\<close> is an integral number; \<open>Other\<close> is any value that is not \<open>undefined\<close>,
  \<open>null\<close>, an integral number or a string and has no \<open>includes\<close> method. \<open>Nullish\<close> is a
  thrown \<open>null\<close> or \<open>undefined\<close>; a thrown primitive reads as an object whose three
  properties are \<open>undefined\<close>.
\<close>

datatype js_value = Undefined | Null | Num int | Str string | Other

datatype js_error = Nullish | ErrObj (err_status: js_value) (err_code: js_value) (err_message: js_value)

text \<open>
  The values \<open>JSON.parse\<close> can return. A number carries the text \<open>Number.prototype.toString\<close>
  gives it; an object carries its own properties, each key once.
\<close>

datatype json = JNull | JBool bool | JNum string | JStr string | JArr "json list"
  | JObj "(string \<times> json) list"

fun join_with :: "string \<Rightarrow> string list \<Rightarrow> string" where
  "join_with sep [] = []"
| "join_with sep [x] = x"
| "join_with sep (x # y # ys) = x @ sep @ join_with sep (y # ys)"

fun to_string :: "json \<Rightarrow> string option" where
  \<comment> \<open>the abstract operation ToString; \<open>None\<close> is the TypeError of an object whose own
      \<open>toString\<close> property hides the inherited method (no value of JSON is callable).
      \<open>Array.prototype.join\<close> writes \<open>null\<close> as the empty string.\<close>
  "to_string JNull = Some ''null''"
| "to_string (JBool b) = Some (if b then ''true'' else ''false'')"
| "to_string (JNum text) = Some text"
| "to_string (JStr s) = Some s"
| "to_string (JArr xs) =
     map_option (join_with '','')
       (those (map (\<lambda>x. case x of JNull \<Rightarrow> Some [] | _ \<Rightarrow> to_string x) xs))"
| "to_string (JObj members) =
     (if ''toString'' \<in> fst ` set members then None else Some ''[object Object]'')"

definition truthy :: "json \<Rightarrow> bool" where
  "truthy v = (v \<noteq> JNull \<and> v \<noteq> JBool False \<and> v \<noteq> JNum ''0'' \<and> v \<noteq> JStr [])"

definition get_property :: "json \<Rightarrow> string \<Rightarrow> json option" where
  \<comment> \<open>\<open>v.name\<close> for a name that no prototype defines: an own property of an object,
      \<open>undefined\<close> (\<open>None\<close>) otherwise\<close>
  "get_property v name = (case v of JObj members \<Rightarrow> map_of members name | _ \<Rightarrow> None)"

section \<open>geminiService.ts: the email finder\<close>

text \<open>
  \<^verbatim>\<open>/[a-zA-Z0-9._%+-]+@[a-zA-Z0-9.-]+\.[a-zA-Z]{2,}/\<close>
\<close>

definition letter :: "char \<Rightarrow> bool" where
  "letter c = (lower_az c \<or> upper_az c)"

definition emailRegex :: rx where
  "emailRegex =
     Seq (plus (Cls (\<lambda>c. letter c \<or> digit c \<or> c \<in> set ''._%+-'')))
    (Seq (lit ''@'')
    (Seq (plus (Cls (\<lambda>c. letter c \<or> digit c \<or> c \<in> set ''.-'')))
    (Seq (lit ''.'')
    (Seq (rep 2 (Cls letter)) (Star (Cls letter))))))"

fun filter_emails :: "json list \<Rightarrow> json list option" where
  \<comment> \<open>\<open>emails.filter((e: string) => emailRegex.test(e))\<close>: \<open>test\<close> converts its argument to a
      string; \<open>None\<close> when a conversion throws\<close>
  "filter_emails [] = Some []"
| "filter_emails (e # es) =
     (case to_string e of
        None \<Rightarrow> None
      | Some s \<Rightarrow>
          (case filter_emails es of
             None \<Rightarrow> None
           | Some kept \<Rightarrow> Some (if found_in emailRegex s then e # kept else kept)))"

function remove_all :: "string \<Rightarrow> string \<Rightarrow> string" where
  \<comment> \<open>\<open>s.replace(/pat/g, '')\<close> for a literal pattern: every occurrence found from left to
      right, the search going on behind each one\<close>
  "remove_all pat [] = []"
| "remove_all pat (c # cs) =
     (if pat \<noteq> [] \<and> prefix pat (c # cs) then remove_all pat (drop (length pat) (c # cs))
      else c # remove_all pat cs)"
  by pat_completeness auto
termination
  by (relation "measure (\<lambda>(pat, s). length s)") auto

definition line_feed :: char where
  "line_feed = char_of (10::nat)"

definition template :: "string list \<Rightarrow> string" where
  \<comment> \<open>the text of a template literal, given line by line\<close>
  "template ls = join_with [line_feed] ls"

definition look_for_patterns :: string where
  "look_for_patterns =
     template
       ['''',
        ''      Look for patterns like info@, support@, contact@, or specific employee emails if publicly listed.'',
        ''      '']"

definition instructions :: "string \<Rightarrow> string option \<Rightarrow> string" where
  \<open>instructions url targetAudience =
     template
       ['''',
        ''      I need to find public contact email addresses for the following website/company: '' @ url @ ''.'',
        ''      '',
        ''      Use Google Search to find their "Contact Us", "About", "Team", "Management" or "Support" pages.'',
        ''    '']
     @ (case targetAudience of
          None \<Rightarrow> look_for_patterns
        | Some audience \<Rightarrow>
            if audience \<noteq> [] \<and> trim audience \<noteq> []
            then template
              ['''',
               ''      '',
               ''      MY GOAL / TARGET AUDIENCE IS: "'' @ audience @ ''"'',
               ''      '',
               ''      PRIORITY INSTRUCTIONS:'',
               ''      1. First, try to find specific personal emails for people matching the target audience (e.g. CEO, Founder, VP Marketing, etc).'',
               ''      2. If you find these high-value emails, list them first.'',
               ''      3. CRITICAL: If you CANNOT find emails for specific roles (CEOs, etc.), you MUST fallback and return the best available general emails (info@, contact@, hello@, support@).'',
               ''      4. Do not return an empty list just because you couldn't find the CEO. Any email is better than no email.'',
               ''      '']
            else look_for_patterns)
     @ template
       ['''',
        ''      '',
        ''      Output Rules:'',
        ''      1. Return ONLY a valid JSON object.'',
        ''      2. The JSON object must have a single key "emails" which is an array of strings.'',
        ''      3. If no emails are found, return { "emails": [] }.'',
        ''      4. Do not include Markdown formatting (like ```json). Just the raw JSON string.'',
        ''    '']\<close>

text \<open>
  The world around the finder: the environment variable, the constructor of the client and
  the request are outside the repository. \<open>construct_client\<close> is the exception of
  \<open>new GoogleGenAI\<close>, if it throws; \<open>generateContent\<close> maps the instructions to a rejection or to
  the response's \<open>text\<close>, which can be \<open>undefined\<close>.
\<close>

record genai =
  API_KEY :: "string option"
  construct_client :: "js_error option"
  generateContent :: "string \<Rightarrow> js_error + string option"

definition api_key_missing :: js_error where
  "api_key_missing = ErrObj Undefined Undefined (Str ''API Key not found in environment variables'')"

definition getClient :: "genai \<Rightarrow> js_error + unit" where
  "getClient env =
     (case API_KEY env of
        None \<Rightarrow> Inl api_key_missing
      | Some apiKey \<Rightarrow>
          if apiKey = [] then Inl api_key_missing
          else (case construct_client env of Some err \<Rightarrow> Inl err | None \<Rightarrow> Inr ()))"

definition read_emails :: "(string \<Rightarrow> json option) \<Rightarrow> string \<Rightarrow> json list" where
  \<comment> \<open>the inner \<open>try\<close>: \<open>JSON.parse\<close> is a parameter, \<open>None\<close> its SyntaxError; every exception
      raised in the block is caught and gives the empty list\<close>
  "read_emails json_parse cleanText =
     (case json_parse cleanText of
        None \<Rightarrow> []
      | Some parsed \<Rightarrow>
          if truthy parsed
          then (case get_property parsed ''emails'' of
                  Some (JArr emails) \<Rightarrow>
                    (case filter_emails emails of None \<Rightarrow> [] | Some kept \<Rightarrow> kept)
                | _ \<Rightarrow> [])
          else [])"

definition findEmailsForUrl ::
  "genai \<Rightarrow> (string \<Rightarrow> json option) \<Rightarrow> string \<Rightarrow> string option \<Rightarrow> js_error + json list" where
  "findEmailsForUrl env json_parse url targetAudience =
     (case getClient env of
        Inl error \<Rightarrow> Inl error
      | Inr ai \<Rightarrow>
          (case generateContent env (instructions url targetAudience) of
             Inl error \<Rightarrow> Inl error
           | Inr response_text \<Rightarrow>
               let text = (case response_text of None \<Rightarrow> [] | Some t \<Rightarrow> t);
                   cleanText = trim (remove_all ''```'' (remove_all ''```json'' text))
               in Inr (read_emails json_parse cleanText)))"

section \<open>Numbers\<close>

text \<open>
  A JavaScript number is an IEEE 754 double: 53 significant bits, every operation rounded
  to the nearest double, ties to the even significand. The model keeps a number as the
  rational it denotes and rounds after each operation. The exponent is not bounded, which
  agrees with the double arithmetic wherever no overflow or underflow occurs: the quotient
  of two array lengths and its product with 100 lie between \<open>2\<^sup>-\<^sup>3\<^sup>2\<close> and \<open>2\<^sup>3\<^sup>9\<close>, or
  are zero. Array lengths are below \<open>2\<^sup>3\<^sup>2\<close> and are doubles themselves.
\<close>

definition pow2 :: "int \<Rightarrow> rat" where
  "pow2 e = (if 0 \<le> e then 2 ^ nat e else 1 / 2 ^ nat (- e))"

definition binade :: "rat \<Rightarrow> int" where
  \<comment> \<open>for \<open>x > 0\<close> the exponent \<open>e\<close> with \<open>2\<^sup>e \<le> x < 2\<^sup>e\<^sup>+\<^sup>1\<close>, from the bit lengths of
      numerator and denominator\<close>
  "binade x =
     (let k = bitlen (fst (quotient_of x)) - bitlen (snd (quotient_of x))
      in if pow2 k \<le> x then k else k - 1)"

definition round_ties_even :: "rat \<Rightarrow> int" where
  "round_ties_even x =
     (let n = \<lfloor>x\<rfloor>; d = x - of_int n
      in if d < 1 / 2 then n else if 1 / 2 < d then n + 1 else if even n then n else n + 1)"

definition fl64 :: "rat \<Rightarrow> rat" where
  \<comment> \<open>the nearest number with a 53-bit significand\<close>
  "fl64 x =
     (if x = 0 then 0
      else let ulp = pow2 (binade \<bar>x\<bar> - 52) in of_int (round_ties_even (x / ulp)) * ulp)"

definition js_divide :: "rat \<Rightarrow> rat \<Rightarrow> rat" where
  \<comment> \<open>\<open>a / b\<close> for \<open>b \<noteq> 0\<close>\<close>
  "js_divide a b = fl64 (a / b)"

definition js_times :: "rat \<Rightarrow> rat \<Rightarrow> rat" where
  "js_times a b = fl64 (a * b)"

definition Math_round :: "rat \<Rightarrow> int" where
  \<comment> \<open>the nearest integer, a tie going up\<close>
  "Math_round x = \<lfloor>x + 1 / 2\<rfloor>"

function decimal :: "nat \<Rightarrow> string" where
  \<comment> \<open>a count inside a template literal\<close>
  "decimal n =
     (if n < 10 then [char_of (48 + n)] else decimal (n div 10) @ [char_of (48 + n mod 10)])"
  by pat_completeness auto
termination
  by (relation "measure id") auto

declare decimal.simps [simp del]

section \<open>types.ts\<close>

datatype ExtractionStatus = IDLE | PENDING | PROCESSING | COMPLETED | FAILED

text \<open>
  \<open>id\<close> is a string made by \<open>uuidv4()\<close>; the program only compares ids, so an id is modelled
  as a number. The TypeScript type of \<open>emails\<close> is \<open>string[]\<close>, which is not checked when the
  program runs, and the controller only stores and counts the entries: their type is the
  parameter \<open>'e\<close> (\<open>string\<close> for the declared type, \<open>json\<close> for what the finder returns).
\<close>

type_synonym uuid = nat

record 'e WebsiteData =
  id' :: uuid
  url :: string
  status :: ExtractionStatus
  emails :: "'e list"
  error :: "string option"
  sourceUrl :: "string option"

record Stats =
  total :: nat
  processed :: nat
  found :: nat
  successRate :: int

section \<open>App.tsx: state\<close>

text \<open>
  The history is a plain object used as a dictionary: its own properties in a list, each key
  once. \<open>history[key]\<close> is read for its truthiness only; an own property holds an array,
  which is truthy, and so is every property inherited from \<open>Object.prototype\<close>.
\<close>

type_synonym 'e History = "(string \<times> 'e list) list"

fun obj_define :: "'e History \<Rightarrow> string \<Rightarrow> 'e list \<Rightarrow> 'e History" where
  \<comment> \<open>define an own property, as \<open>JSON.parse\<close> and the spread \<open>{...history}\<close> do\<close>
  "obj_define [] k v = [(k, v)]"
| "obj_define ((k', v') # h) k v = (if k' = k then (k, v) # h else (k', v') # obj_define h k v)"

definition obj_set :: "'e History \<Rightarrow> string \<Rightarrow> 'e list \<Rightarrow> 'e History" where
  \<comment> \<open>\<open>obj[k] = v\<close>. Without an own property \<open>__proto__\<close> the assignment reaches the setter
      inherited from \<open>Object.prototype\<close>: it replaces the prototype and adds no property.
      The model does not follow a replaced prototype.\<close>
  "obj_set h k v = (if k = ''__proto__'' \<and> k \<notin> fst ` set h then h else obj_define h k v)"

definition object_prototype_names :: "string list" where
  "object_prototype_names =
     [''constructor'', ''__defineGetter__'', ''__defineSetter__'', ''hasOwnProperty'',
      ''__lookupGetter__'', ''__lookupSetter__'', ''isPrototypeOf'', ''propertyIsEnumerable'',
      ''toString'', ''valueOf'', ''__proto__'', ''toLocaleString'']"

definition in_history :: "'e History \<Rightarrow> string \<Rightarrow> bool" where
  \<comment> \<open>the condition \<open>history[normalized]\<close>\<close>
  "in_history h k = (k \<in> fst ` set h \<or> k \<in> set object_prototype_names)"

record 'e AppState =
  websites :: "'e WebsiteData list"
  isProcessing :: bool
  targetAudience :: string
  history :: "'e History"
  notification :: "string option"

definition initial :: "(string \<times> 'e list) list option \<Rightarrow> 'e AppState" where
  \<comment> \<open>the first render. The argument is what local storage holds under \<open>emailScout_history\<close>:
      nothing or text that does not parse (\<open>None\<close>), or the members of the stored object in
      the order of the text, a repeated key taking its last value.\<close>
  "initial saved =
     \<lparr>websites = [], isProcessing = False, targetAudience = [],
      history = (case saved of
                   None \<Rightarrow> []
                 | Some members \<Rightarrow> foldl (\<lambda>h (k, v). obj_define h k v) [] members),
      notification = None\<rparr>"

section \<open>App.tsx: stats\<close>

definition stats :: "'e WebsiteData list \<Rightarrow> Stats" where
  "stats ws =
     (let processed = length (filter (\<lambda>w. status w = COMPLETED \<or> status w = FAILED) ws);
          found = length (filter (\<lambda>w. length (emails w) > 0) ws);
          total = length ws
      in \<lparr>total = total, processed = processed, found = found,
          successRate =
            (if processed > 0
             then Math_round (js_times (js_divide (of_nat found) (of_nat processed)) 100)
             else 0)\<rparr>)"

section \<open>App.tsx: addUrls\<close>

text \<open>
  \<open>addUrls\<close> is a callback of one render. It reads \<open>websites\<close> and \<open>history\<close> from the state
  of that render, and it appends to the list of the moment it runs in
  (\<open>setWebsites(prev => [...prev, ...newEntries])\<close>). The handlers of \<open>InputSection\<close> call the
  \<open>addUrls\<close> they were rendered with: at once for pasted text, and after \<open>await parseFile\<close> for
  a file, when the component may have been rendered again. So the model has two states:
  \<open>render\<close>, the state the callback was created in, and the state it updates.

  The locals of \<open>addUrls\<close> while its \<open>forEach\<close> runs are a record. \<open>uuidv4\<close> is the library's
  generator: the argument \<open>uuidv4 n\<close> of the model is the id its \<open>n\<close>-th call in this invocation
  returns.
\<close>

record 'e AddUrls =
  newEntries :: "'e WebsiteData list"
  skippedHistoryCount :: nat
  skippedDuplicateCount :: nat
  currentNormalized :: "string list"

definition addUrls_each ::
  "(nat \<Rightarrow> uuid) \<Rightarrow> 'e History \<Rightarrow> 'e AddUrls \<Rightarrow> string \<Rightarrow> 'e AddUrls" where
  \<comment> \<open>the callback of \<open>urls.forEach\<close>\<close>
  "addUrls_each uuidv4 h a u =
     (let normalized = normalizeUrl u
      in if normalized \<in> set (currentNormalized a)
         then a\<lparr>skippedDuplicateCount := skippedDuplicateCount a + 1\<rparr>
         else if in_history h normalized
         then a\<lparr>skippedHistoryCount := skippedHistoryCount a + 1\<rparr>
         else a\<lparr>newEntries := newEntries a @
                    [\<lparr>id' = uuidv4 (length (newEntries a)), url = u, status = IDLE,
                      emails = [], error = None, sourceUrl = None\<rparr>],
                  currentNormalized := set_add (currentNormalized a) normalized\<rparr>)"

definition addUrls_loop ::
  "(nat \<Rightarrow> uuid) \<Rightarrow> 'e AppState \<Rightarrow> string list \<Rightarrow> 'e AddUrls" where
  "addUrls_loop uuidv4 render urls =
     foldl (addUrls_each uuidv4 (history render))
       \<lparr>newEntries = [], skippedHistoryCount = 0, skippedDuplicateCount = 0,
        currentNormalized = array_from_set (map (\<lambda>w. normalizeUrl (url w)) (websites render))\<rparr>
       urls"

definition plural :: "nat \<Rightarrow> string" where
  "plural n = (if n > 1 then ''s'' else [])"

definition addUrls_message :: "nat \<Rightarrow> nat \<Rightarrow> string option" where
  "addUrls_message skippedHistory skippedDuplicate =
     (if skippedHistory > 0
      then Some (decimal skippedHistory @ '' website'' @ plural skippedHistory
                 @ '' already in your history were skipped.''
                 @ (if skippedDuplicate > 0
                    then '' ('' @ decimal skippedDuplicate @ '' duplicates in list ignored)''
                    else []))
      else if skippedDuplicate > 0
      then Some (decimal skippedDuplicate @ '' duplicate website'' @ plural skippedDuplicate
                 @ '' ignored.'')
      else None)"

definition addUrls ::
  "(nat \<Rightarrow> uuid) \<Rightarrow> string list \<Rightarrow> 'e AppState \<Rightarrow> 'e AppState \<Rightarrow> 'e AppState" where
  "addUrls uuidv4 urls render s =
     (let a = addUrls_loop uuidv4 render urls
      in s\<lparr>notification := addUrls_message (skippedHistoryCount a) (skippedDuplicateCount a),
           websites := (if length (newEntries a) > 0 then websites s @ newEntries a
                        else websites s)\<rparr>)"

section \<open>App.tsx: removeWebsite, clearList, saveAndClear\<close>

definition removeWebsite :: "uuid \<Rightarrow> 'e AppState \<Rightarrow> 'e AppState" where
  "removeWebsite i s = s\<lparr>websites := filter (\<lambda>w. id' w \<noteq> i) (websites s)\<rparr>"

definition clearList :: "bool \<Rightarrow> 'e AppState \<Rightarrow> 'e AppState" where
  \<comment> \<open>the first argument is the answer of \<open>window.confirm\<close>\<close>
  "clearList confirmed s =
     (if length (websites s) = 0 then s
      else if confirmed then s\<lparr>websites := [], notification := None\<rparr>
      else s)"

datatype exn = TypeError | QuotaExceededError

definition save_each :: "'e History \<times> nat \<Rightarrow> 'e WebsiteData \<Rightarrow> 'e History \<times> nat" where
  \<comment> \<open>the callback of \<open>websites.forEach\<close>, on \<open>newHistory\<close> and \<open>savedCount\<close>\<close>
  "save_each acc w =
     (case acc of (newHistory, savedCount) \<Rightarrow>
        if status w = COMPLETED \<or> status w = FAILED
        then (obj_set newHistory (normalizeUrl (url w)) (emails w), savedCount + 1)
        else (newHistory, savedCount))"

definition saveAndClear :: "bool \<Rightarrow> 'e AppState \<Rightarrow> exn + 'e AppState" where
  \<comment> \<open>the first argument tells whether \<open>localStorage.setItem\<close> accepts the write; when it
      throws, the handler ends there. The notification is dismissed five seconds later by a
      timer, which is the step \<open>dismiss\<close> of a session.\<close>
  "saveAndClear storage_accepts s =
     (if length (websites s) = 0 then Inr s
      else case foldl save_each (history s, 0) (websites s) of (newHistory, savedCount) \<Rightarrow>
        if \<not> storage_accepts then Inl QuotaExceededError
        else Inr (s\<lparr>history := newHistory, websites := [],
                    notification := Some (''Saved '' @ decimal savedCount
                                          @ '' websites to history and cleared the list.'')\<rparr>))"

section \<open>App.tsx: processQueue\<close>

fun message_includes :: "js_value \<Rightarrow> string \<Rightarrow> exn + bool" where
  \<comment> \<open>\<open>error?.message?.includes(t)\<close>, read as a condition\<close>
  "message_includes Undefined t = Inr False"
| "message_includes Null t = Inr False"
| "message_includes (Str m) t = Inr (js_includes m t)"
| "message_includes (Num n) t = Inl TypeError"
| "message_includes Other t = Inl TypeError"

fun isRateLimit :: "js_error \<Rightarrow> exn + bool" where
  "isRateLimit Nullish = Inr False"
| "isRateLimit (ErrObj st cd msg) =
     (if st = Num 429 then Inr True
      else if cd = Num 429 then Inr True
      else case message_includes msg ''429'' of
             Inl x \<Rightarrow> Inl x
           | Inr True \<Rightarrow> Inr True
           | Inr False \<Rightarrow>
               (case message_includes msg ''quota'' of
                  Inl x \<Rightarrow> Inl x
                | Inr True \<Rightarrow> Inr True
                | Inr False \<Rightarrow> message_includes msg ''RESOURCE_EXHAUSTED''))"

fun failure_text :: "js_error \<Rightarrow> exn + string" where
  \<comment> \<open>\<open>error.message || "Failed to scout"\<close>, without the \<open>?.\<close> of the lines above it: a
      TypeError for a thrown \<open>null\<close> or \<open>undefined\<close>. It is evaluated only after \<open>isRateLimit\<close>
      has returned false, so the message is a string, \<open>null\<close> or \<open>undefined\<close>.\<close>
  "failure_text Nullish = Inl TypeError"
| "failure_text (ErrObj st cd (Str m)) = Inr (if m = [] then ''Failed to scout'' else m)"
| "failure_text (ErrObj st cd msg) = Inr ''Failed to scout''"

definition update_item ::
  "uuid \<Rightarrow> ('e WebsiteData \<Rightarrow> 'e WebsiteData) \<Rightarrow> 'e AppState \<Rightarrow> 'e AppState" where
  \<comment> \<open>the updater \<open>prev => prev.map(w => w.id === item.id ? {...} : w)\<close>\<close>
  "update_item i f s = s\<lparr>websites := map (\<lambda>w. if id' w = i then f w else w) (websites s)\<rparr>"

definition rate_limit_notice :: string where
  "rate_limit_notice = ''Rate limit reached (429). The scan has been paused to preserve quota. Please wait 1-2 minutes before resuming.''"

text \<open>
  What a run has done so far: \<open>app\<close> is the state of the component as React last rendered
  it; \<open>calls\<close> are the calls of the finder (url and target audience); \<open>uncaught\<close> is the
  exception that ended \<open>processQueue\<close>, when one was thrown in its \<open>catch\<close> block.

  React applies an updater function while it renders, not inside the call of \<open>setWebsites\<close>.
  An exception of an updater therefore does not reach \<open>processQueue\<close>, which goes on; it is
  an error of rendering, the source has no error boundary, and React then removes the
  component. \<open>render_error\<close> is that exception; after it no update changes the state.
\<close>

record 'e Run =
  app :: "'e AppState"
  calls :: "(string \<times> string) list"
  uncaught :: "exn option"
  render_error :: "exn option"

definition set_state :: "('e AppState \<Rightarrow> 'e AppState) \<Rightarrow> 'e Run \<Rightarrow> 'e Run" where
  \<comment> \<open>a state setter called with an updater that throws nothing\<close>
  "set_state f r = (if render_error r = None then r\<lparr>app := f (app r)\<rparr> else r)"

definition set_failed :: "uuid \<Rightarrow> js_error \<Rightarrow> 'e Run \<Rightarrow> 'e Run" where
  \<comment> \<open>\<open>setWebsites(prev => prev.map(w => w.id === item.id ? {...w, status: FAILED, error:
      error.message || "Failed to scout"} : w))\<close>: the message is read when the updater comes
      to a record with the id\<close>
  "set_failed i err r =
     (case failure_text err of
        Inr text \<Rightarrow> set_state (update_item i (\<lambda>w. w\<lparr>status := FAILED, error := Some text\<rparr>)) r
      | Inl x \<Rightarrow>
          if render_error r = None \<and> i \<in> set (map id' (websites (app r)))
          then r\<lparr>render_error := Some x\<rparr> else r)"

definition start_item :: "'e WebsiteData \<Rightarrow> string \<Rightarrow> 'e Run \<Rightarrow> 'e Run" where
  \<comment> \<open>the body of the loop up to the \<open>await\<close> of the finder\<close>
  "start_item item audience r =
     (set_state (update_item (id' item) (\<lambda>w. w\<lparr>status := PROCESSING\<rparr>)) r)
       \<lparr>calls := calls r @ [(url item, audience)]\<rparr>"

definition end_item :: "'e WebsiteData \<Rightarrow> js_error + 'e list \<Rightarrow> 'e Run \<Rightarrow> bool \<times> 'e Run" where
  \<comment> \<open>the body of the loop from the finder's answer, a rejection or a list of emails, to
      the \<open>await\<close> of the four-second pause; the first component is false when \<open>processQueue\<close>
      leaves the loop instead, by \<open>return\<close> or by an exception\<close>
  "end_item item result r =
     (case result of
        Inr found_emails \<Rightarrow>
          (True, set_state (update_item (id' item)
                              (\<lambda>w. w\<lparr>status := COMPLETED, emails := found_emails\<rparr>)) r)
      | Inl err \<Rightarrow>
          (case isRateLimit err of
             Inl x \<Rightarrow> (False, r\<lparr>uncaught := Some x\<rparr>)
           | Inr True \<Rightarrow>
               (False,
                set_state (update_item (id' item) (\<lambda>w. w\<lparr>status := IDLE\<rparr>))
                  (set_state (\<lambda>s. s\<lparr>isProcessing := False\<rparr>)
                     (set_state (\<lambda>s. s\<lparr>notification := Some rate_limit_notice\<rparr>) r)))
           | Inr False \<Rightarrow> (True, set_failed (id' item) err r)))"

text \<open>
  A run that no other handler interrupts. The finder is a parameter: \<open>finder n url audience\<close>
  is what the call number \<open>n\<close> of the run (from 0) does.
\<close>

type_synonym 'e finder = "nat \<Rightarrow> string \<Rightarrow> string \<Rightarrow> js_error + 'e list"

fun processQueue_loop ::
  "'e finder \<Rightarrow> string \<Rightarrow> 'e WebsiteData list \<Rightarrow> 'e Run \<Rightarrow> 'e Run" where
  "processQueue_loop finder audience [] r = set_state (\<lambda>s. s\<lparr>isProcessing := False\<rparr>) r"
| "processQueue_loop finder audience (item # pendingItems) r =
     (case end_item item (finder (length (calls r)) (url item) audience)
             (start_item item audience r) of
        (True, r') \<Rightarrow> processQueue_loop finder audience pendingItems r'
      | (False, r') \<Rightarrow> r')"

definition pendingItems :: "'e WebsiteData list \<Rightarrow> 'e WebsiteData list" where
  \<comment> \<open>the snapshot\<close>
  "pendingItems ws = filter (\<lambda>w. status w = IDLE) ws"

definition begin_run :: "'e AppState \<Rightarrow> 'e Run" where
  \<comment> \<open>\<open>setIsProcessing(true); setNotification(null)\<close>, in a mounted component\<close>
  "begin_run s =
     \<lparr>app = s\<lparr>isProcessing := True, notification := None\<rparr>, calls = [], uncaught = None,
      render_error = None\<rparr>"

definition processQueue :: "'e finder \<Rightarrow> 'e AppState \<Rightarrow> 'e Run" where
  "processQueue finder s =
     (if isProcessing s then \<lparr>app = s, calls = [], uncaught = None, render_error = None\<rparr>
      else processQueue_loop finder (targetAudience s) (pendingItems (websites s)) (begin_run s))"

section \<open>The component over time\<close>

text \<open>
  A session is the component from its first render on: the state of the page, the
  \<open>processQueue\<close> that is suspended at an \<open>await\<close> (with the target audience it was started
  with), and the file reads in progress, each with the state of the render whose handler
  started it. A suspended \<open>processQueue\<close> waits for the answer of the finder on one record, or
  for the end of the pause after one; it holds the rest of its snapshot.

  Each rule is one handler, or one stretch of \<open>processQueue\<close> between two \<open>await\<close>s. The
  finder may give any answer, and other handlers may run while \<open>processQueue\<close> waits. The rules
  allow every handler whenever it can be called: the \<open>disabled\<close> attributes of the markup,
  which keep the user from some of them while \<open>isProcessing\<close> holds, are not used. Pasted text
  reaches \<open>addUrls\<close> with the state of the page; a chosen or dropped file reaches it when
  \<open>parseFile\<close> has returned, with the state of the render in which the file was given. The
  batch is any list of strings. Once React has removed the component, its handlers change
  nothing, and a \<open>processQueue\<close> that is suspended still runs to its end.
\<close>

datatype 'e waiting = Finder "'e WebsiteData" "'e WebsiteData list" | Delay "'e WebsiteData list"

record 'e Session =
  page :: "'e Run"
  suspended :: "('e waiting \<times> string) option"
  reading :: "'e AppState list"

fun advance :: "string \<Rightarrow> 'e WebsiteData list \<Rightarrow> 'e Session \<Rightarrow> 'e Session" where
  \<comment> \<open>the head of the loop: the next record of the snapshot, or the end of \<open>processQueue\<close>\<close>
  "advance audience [] c =
     c\<lparr>page := set_state (\<lambda>s. s\<lparr>isProcessing := False\<rparr>) (page c), suspended := None\<rparr>"
| "advance audience (item # rest) c =
     c\<lparr>page := start_item item audience (page c), suspended := Some (Finder item rest, audience)\<rparr>"

definition fresh_ids :: "(nat \<Rightarrow> uuid) \<Rightarrow> 'e AppState \<Rightarrow> bool" where
  \<comment> \<open>what the library promises of \<open>uuidv4\<close>: no id twice, none that a record carries\<close>
  "fresh_ids uuidv4 s = (inj uuidv4 \<and> (\<forall>n. uuidv4 n \<notin> id' ` set (websites s)))"

inductive session :: "'e Session \<Rightarrow> bool" where
  first_render:
    "session \<lparr>page = \<lparr>app = initial saved, calls = [], uncaught = None, render_error = None\<rparr>,
              suspended = None, reading = []\<rparr>"
| audience:
    "session c \<Longrightarrow> session (c\<lparr>page := set_state (\<lambda>s. s\<lparr>targetAudience := a\<rparr>) (page c)\<rparr>)"
| dismiss:
    "session c \<Longrightarrow> session (c\<lparr>page := set_state (\<lambda>s. s\<lparr>notification := None\<rparr>) (page c)\<rparr>)"
| paste:
    "session c \<Longrightarrow> fresh_ids uuidv4 (app (page c)) \<Longrightarrow>
     session (c\<lparr>page := set_state (addUrls uuidv4 urls (app (page c))) (page c)\<rparr>)"
| give_file:
    "session c \<Longrightarrow> session (c\<lparr>reading := app (page c) # reading c\<rparr>)"
| file_read:
    "session c \<Longrightarrow> render \<in> set (reading c) \<Longrightarrow> fresh_ids uuidv4 (app (page c)) \<Longrightarrow>
     session (c\<lparr>page := set_state (addUrls uuidv4 urls render) (page c),
                reading := remove1 render (reading c)\<rparr>)"
| remove:
    "session c \<Longrightarrow> session (c\<lparr>page := set_state (removeWebsite i) (page c)\<rparr>)"
| clear:
    "session c \<Longrightarrow> session (c\<lparr>page := set_state (clearList confirmed) (page c)\<rparr>)"
| save:
    "session c \<Longrightarrow> saveAndClear storage_accepts (app (page c)) = Inr s' \<Longrightarrow>
     session (c\<lparr>page := set_state (\<lambda>s. s') (page c)\<rparr>)"
| click:
    "session c \<Longrightarrow> render_error (page c) = None \<Longrightarrow> \<not> isProcessing (app (page c)) \<Longrightarrow>
     session (advance (targetAudience (app (page c))) (pendingItems (websites (app (page c))))
                (c\<lparr>page := begin_run (app (page c))\<rparr>))"
| answer:
    "session c \<Longrightarrow> suspended c = Some (Finder item rest, audience) \<Longrightarrow>
     end_item item result (page c) = (go, r) \<Longrightarrow>
     session (c\<lparr>page := r, suspended := (if go then Some (Delay rest, audience) else None)\<rparr>)"
| pause_over:
    "session c \<Longrightarrow> suspended c = Some (Delay rest, audience) \<Longrightarrow> session (advance audience rest c)"

definition reachable :: "'e AppState \<Rightarrow> bool" where
  \<comment> \<open>the states of the page\<close>
  "reachable s = (\<exists>c. session c \<and> app (page c) = s)"

fun run_items :: "('e waiting \<times> string) option \<Rightarrow> 'e WebsiteData list" where
  \<comment> \<open>the records of the snapshot that a suspended \<open>processQueue\<close> has not finished\<close>
  "run_items None = []"
| "run_items (Some (Finder item rest, audience)) = item # rest"
| "run_items (Some (Delay rest, audience)) = rest"

section \<open>The operations, as the specification tells them\<close>

text \<open>
  The specification's rate-limit signals, and what it says of the other outcomes of a call:
  a success completes the record with the emails returned; a failure without a rate-limit
  signal fails it, with the message of the error or the generic text.
\<close>

definition rate_limit_flavoured :: "js_error \<Rightarrow> bool" where
  \<comment> \<open>status 429, code 429, or a message that contains 429, quota or RESOURCE_EXHAUSTED\<close>
  "rate_limit_flavoured err =
     (case err of
        Nullish \<Rightarrow> False
      | ErrObj st cd msg \<Rightarrow>
          st = Num 429 \<or> cd = Num 429
          \<or> (case msg of
                Str m \<Rightarrow> js_includes m ''429'' \<or> js_includes m ''quota''
                         \<or> js_includes m ''RESOURCE_EXHAUSTED''
              | _ \<Rightarrow> False))"

definition plain_failure :: "js_error \<Rightarrow> bool" where
  \<comment> \<open>an error object without a rate-limit signal, whose message is a string or is missing\<close>
  "plain_failure err =
     (case err of
        Nullish \<Rightarrow> False
      | ErrObj st cd msg \<Rightarrow>
          (case msg of Num n \<Rightarrow> False | Other \<Rightarrow> False | _ \<Rightarrow> \<not> rate_limit_flavoured err))"

definition goes_well :: "js_error + 'e list \<Rightarrow> bool" where
  \<comment> \<open>a call that returns, or is rejected with a plain failure\<close>
  "goes_well result = (case result of Inr found_emails \<Rightarrow> True | Inl err \<Rightarrow> plain_failure err)"

definition spec_message :: "js_error \<Rightarrow> string" where
  "spec_message err =
     (case err of
        ErrObj st cd (Str m) \<Rightarrow> if m = [] then ''Failed to scout'' else m
      | _ \<Rightarrow> ''Failed to scout'')"

definition spec_record :: "js_error + 'e list \<Rightarrow> 'e WebsiteData \<Rightarrow> 'e WebsiteData" where
  "spec_record result w =
     (case result of
        Inr found_emails \<Rightarrow> w\<lparr>status := COMPLETED, emails := found_emails\<rparr>
      | Inl err \<Rightarrow> w\<lparr>status := FAILED, error := Some (spec_message err)\<rparr>)"

definition queue_position :: "'e WebsiteData list \<Rightarrow> nat \<Rightarrow> nat" where
  \<comment> \<open>the place of the record at index \<open>i\<close> in the snapshot, when it is idle: the number of
      idle records before it\<close>
  "queue_position ws i = length (pendingItems (take i ws))"

text \<open>
  A run, record by record: the outcome of one call as the \<open>catch\<close> block sorts it, and the
  list after a run that walks the records in order and ends at the first outcome that stops
  it or that React cannot render.
\<close>

datatype 'e outcome = Completed "'e list" | Failed string | RateLimited | Thrown exn | Broken exn

definition settle :: "js_error + 'e list \<Rightarrow> 'e outcome" where
  "settle result =
     (case result of
        Inr found_emails \<Rightarrow> Completed found_emails
      | Inl err \<Rightarrow>
          (case isRateLimit err of
             Inl x \<Rightarrow> Thrown x
           | Inr True \<Rightarrow> RateLimited
           | Inr False \<Rightarrow> (case failure_text err of Inl x \<Rightarrow> Broken x | Inr text \<Rightarrow> Failed text)))"

fun goes_on :: "'e outcome \<Rightarrow> bool" where
  "goes_on (Completed found_emails) = True"
| "goes_on (Failed text) = True"
| "goes_on RateLimited = False"
| "goes_on (Thrown x) = False"
| "goes_on (Broken x) = False"

fun record_after :: "'e outcome \<Rightarrow> 'e WebsiteData \<Rightarrow> 'e WebsiteData" where
  "record_after (Completed found_emails) w = w\<lparr>status := COMPLETED, emails := found_emails\<rparr>"
| "record_after (Failed text) w = w\<lparr>status := FAILED, error := Some text\<rparr>"
| "record_after RateLimited w = w\<lparr>status := IDLE\<rparr>"
| "record_after (Thrown x) w = w\<lparr>status := PROCESSING\<rparr>"
| "record_after (Broken x) w = w\<lparr>status := PROCESSING\<rparr>"

fun spec_walk ::
  "'e finder \<Rightarrow> string \<Rightarrow> nat \<Rightarrow> 'e WebsiteData list \<Rightarrow> 'e WebsiteData list" where
  \<comment> \<open>the record list after a run that has made \<open>n\<close> calls before reaching this part of it\<close>
  "spec_walk finder audience n [] = []"
| "spec_walk finder audience n (w # ws) =
     (if status w = IDLE
      then let out = settle (finder n (url w) audience)
           in if goes_on out then record_after out w # spec_walk finder audience (Suc n) ws
              else record_after out w # ws
      else w # spec_walk finder audience n ws)"

text \<open>
  A list without its repetitions, each value where it first occurs; the string cells of a
  table, row by row; the record whose emails a save leaves under a key.
\<close>

primrec first_occurrences :: "'a list \<Rightarrow> 'a list" where
  "first_occurrences [] = []"
| "first_occurrences (x # xs) = x # filter (\<lambda>y. y \<noteq> x) (first_occurrences xs)"

fun cell_strings :: "cell list \<Rightarrow> string list" where
  "cell_strings [] = []"
| "cell_strings (StringCell s # cells) = s # cell_strings cells"
| "cell_strings (OtherCell # cells) = cell_strings cells"

definition saved_sites :: "'e WebsiteData list \<Rightarrow> 'e WebsiteData list" where
  \<comment> \<open>the records a save writes to the history\<close>
  "saved_sites ws = filter (\<lambda>w. status w = COMPLETED \<or> status w = FAILED) ws"

definition last_saved :: "string \<Rightarrow> 'e WebsiteData list \<Rightarrow> 'e WebsiteData option" where
  \<comment> \<open>the last COMPLETED or FAILED record of the list whose url the code normalizes to the key\<close>
  "last_saved k ws = find (\<lambda>w. normalizeUrl (url w) = k) (rev (saved_sites ws))"

definition is_tie :: "nat \<Rightarrow> nat \<Rightarrow> bool" where
  \<comment> \<open>\<open>100 * found / processed\<close> lies exactly halfway between two integers\<close>
  "is_tie n_found n_processed = (2 * n_processed dvd 200 * n_found + n_processed)"

definition normalized_urls :: "'e WebsiteData list \<Rightarrow> string set" where
  "normalized_urls ws = (\<lambda>w. normalizeUrl (url w)) ` set ws"

definition scan_ok ::
  "(nat \<Rightarrow> uuid) \<Rightarrow> 'e History \<Rightarrow> string set \<Rightarrow> string list \<Rightarrow> 'e AddUrls \<Rightarrow> bool" where
  \<comment> \<open>what holds of the locals of \<open>addUrls\<close> after the urls \<open>seen\<close>, when the list of its render
      has the normalized urls \<open>N\<close>\<close>
  "scan_ok g h N seen a =
     (set (currentNormalized a) = N \<union> normalized_urls (newEntries a)
      \<and> distinct (map (\<lambda>w. normalizeUrl (url w)) (newEntries a))
      \<and> normalized_urls (newEntries a) = normalizeUrl ` set seen - N - {k. in_history h k}
      \<and> (\<forall>e \<in> set (newEntries a). status e = IDLE \<and> emails e = [])
      \<and> map id' (newEntries a) = map g [0..<length (newEntries a)]
      \<and> length (newEntries a) + skippedHistoryCount a + skippedDuplicateCount a = length seen
      \<and> skippedHistoryCount a
          = length (filter (\<lambda>u. normalizeUrl u \<notin> N \<and> in_history h (normalizeUrl u)) seen)
      \<and> length (filter (\<lambda>u. normalizeUrl u \<in> N) seen) \<le> skippedDuplicateCount a)"

definition good_record :: "'e WebsiteData \<Rightarrow> bool" where
  "good_record w =
     (status w \<noteq> PENDING \<and> (emails w \<noteq> [] \<longrightarrow> status w = COMPLETED)
      \<and> normalizeUrl (url w) \<notin> set object_prototype_names)"

definition invariant :: "'e AppState \<Rightarrow> bool" where
  "invariant s =
     (distinct (map id' (websites s))
      \<and> distinct (map fst (history s))
      \<and> (\<forall>w \<in> set (websites s). good_record w))"

definition holds_no_emails :: "'e WebsiteData list \<Rightarrow> 'e AppState \<Rightarrow> bool" where
  \<comment> \<open>the records of the state that carry the id of one of the items hold no emails\<close>
  "holds_no_emails items s =
     (\<forall>item \<in> set items. \<forall>w \<in> set (websites s). id' w = id' item \<longrightarrow> emails w = [])"

definition sound :: "'e Session \<Rightarrow> bool" where
  \<comment> \<open>what every session keeps: the invariant of the page, and for a suspended
      \<open>processQueue\<close> that the records it has yet to finish hold no emails\<close>
  "sound c =
     (invariant (app (page c))
      \<and> distinct (map id' (run_items (suspended c)))
      \<and> holds_no_emails (run_items (suspended c)) (app (page c))
      \<and> (suspended c \<noteq> None \<longrightarrow> isProcessing (app (page c))))"

section \<open>Examples\<close>

definition example_record :: "nat \<Rightarrow> nat \<Rightarrow> string WebsiteData" where
  \<comment> \<open>record \<open>i\<close> of a list whose first \<open>k\<close> lookups found an email and whose others failed\<close>
  "example_record k i =
     \<lparr>id' = i, url = ''site'' @ decimal i @ ''.com'',
      status = (if i < k then COMPLETED else FAILED),
      emails = (if i < k then [''info@site'' @ decimal i @ ''.com''] else []),
      error = (if i < k then None else Some ''Failed to scout''),
      sourceUrl = None\<rparr>"

definition first_page :: "'e Session" where
  "first_page =
     \<lparr>page = \<lparr>app = initial None, calls = [], uncaught = None, render_error = None\<rparr>,
      suspended = None, reading = []\<rparr>"

definition three_idle :: "string AppState" where
  "three_idle = addUrls (\<lambda>n. n) [''a.com'', ''b.com'', ''c.com''] (initial None) (initial None)"

definition two_sites :: "string AppState" where
  "two_sites = addUrls (\<lambda>n. n) [''a.com'', ''b.com''] (initial None) (initial None)"

definition limited_on_second :: "string finder" where
  \<comment> \<open>a finder that is refused with status 429 on its second call\<close>
  "limited_on_second n u a =
     (if n = 1 then Inl (ErrObj (Num 429) Undefined (Str ''Too Many Requests''))
      else Inr [''info@'' @ u])"

definition always_finds :: "string finder" where
  "always_finds n u a = Inr [''info@'' @ u]"

definition one_of_each :: "string finder" where
  \<comment> \<open>a finder whose first call finds an address and whose later calls fail\<close>
  "one_of_each n u a =
     (if n = 0 then Inr [''a@a.com''] else Inl (ErrObj Undefined Undefined (Str ''fetch failed'')))"

definition null_then_limited :: "string finder" where
  \<comment> \<open>a finder whose first call is rejected with \<open>null\<close> and whose later calls are refused
      with status 429\<close>
  "null_then_limited n u a =
     (if n = 0 then Inl Nullish else Inl (ErrObj (Num 429) Undefined (Str ''Too Many Requests'')))"

definition found_failed_limited :: "string finder" where
  \<comment> \<open>a finder whose first call finds an address, whose second fails and whose later calls
      are refused with status 429\<close>
  "found_failed_limited n u a =
     (if n = 0 then Inr [''a@a.com'']
      else if n = 1 then Inl (ErrObj Undefined Undefined (Str ''fetch failed''))
      else Inl (ErrObj (Num 429) Undefined (Str ''Too Many Requests'')))"

definition after_lookups :: "string AppState" where
  \<comment> \<open>the list of the specification's example: a.com completed with one address, b.com failed\<close>
  "after_lookups = app (processQueue one_of_each two_sites)"

definition after_save :: "string AppState" where
  "after_save =
     \<lparr>websites = [], isProcessing = False, targetAudience = [],
      history = [(''a.com'', [''a@a.com'']), (''b.com'', [])],
      notification = Some ''Saved 2 websites to history and cleared the list.''\<rparr>"

definition three_spellings :: "string AppState" where
  \<comment> \<open>three urls that are not in normal form, after a run that the third call paused\<close>
  "three_spellings =
     app (processQueue found_failed_limited
            (addUrls (\<lambda>n. n) [''https://A.com/'', ''http://b.com'', ''C.com/''] (initial None)
               (initial None)))"

definition pasted :: "string AppState" where
  \<comment> \<open>a.com, pasted into the first page\<close>
  "pasted = addUrls (\<lambda>n. n) [''a.com''] (initial None) (initial None)"

definition stale_list :: "string AppState" where
  \<comment> \<open>a file that holds http://a.com/ is given to the first page; a.com is pasted while the
      file is read; then \<open>parseFile\<close> returns to the handler of the first render\<close>
  "stale_list = addUrls Suc [''http://a.com/''] (initial None) pasted"

definition stale_done :: "string AppState" where
  \<comment> \<open>the same list after a run that found an address for the first record only\<close>
  "stale_done = app (processQueue one_of_each stale_list)"

definition nested_answer :: "string \<Rightarrow> json option" where
  \<comment> \<open>\<open>JSON.parse\<close> on one text: an answer whose \<open>emails\<close> array holds an array\<close>
  \<open>nested_answer text =
     (if text = ''{"emails": [["a@b.co"], "none", "c@d.io"]}''
      then Some (JObj [(''emails'', JArr [JArr [JStr ''a@b.co''], JStr ''none'', JStr ''c@d.io''])])
      else None)\<close>

definition answering :: "string \<Rightarrow> genai" where
  \<comment> \<open>a service that answers every request with the same text\<close>
  "answering text =
     \<lparr>API_KEY = Some ''key'', construct_client = None, generateContent = (\<lambda>request. Inr (Some text))\<rparr>"

definition matching_entry :: "json \<Rightarrow> bool" where
  \<comment> \<open>\<open>emailRegex.test(e)\<close> returns true\<close>
  "matching_entry e = (case to_string e of None \<Rightarrow> False | Some s \<Rightarrow> found_in emailRegex s)"

definition four_sites :: "string WebsiteData list" where
  \<comment> \<open>the specification's example: two lookups completed with addresses, one failed, one
      still idle\<close>
  "four_sites =
     [\<lparr>id' = 0, url = ''a.com'', status = COMPLETED, emails = [''a@a.com''], error = None,
       sourceUrl = None\<rparr>,
      \<lparr>id' = 1, url = ''b.com'', status = COMPLETED, emails = [''b@b.com'', ''c@b.com''],
       error = None, sourceUrl = None\<rparr>,
      \<lparr>id' = 2, url = ''c.com'', status = FAILED, emails = [], error = Some ''Failed to scout'',
       sourceUrl = None\<rparr>,
      \<lparr>id' = 3, url = ''d.com'', status = IDLE, emails = [], error = None, sourceUrl = None\<rparr>]"

section \<open>Facts about strings\<close>

lemma code_unit_less: "code_unit c < 256"
  by (simp add: code_unit_def)

lemma code_unit_char_of: "code_unit (char_of (n::nat)) = n mod 256"
  by (simp add: code_unit_def)

lemma lower_char_not_upper: "\<not> is_upper (lower_char c)"
proof (cases "is_upper c")
  case False
  then show ?thesis by (simp add: lower_char_def)
next
  case True
  then have "code_unit c + 32 < 256"
    by (auto simp: is_upper_def Let_def)
  then have "code_unit (char_of (code_unit c + 32)) = code_unit c + 32"
    by (simp add: code_unit_char_of)
  with True show ?thesis
    by (auto simp: lower_char_def is_upper_def Let_def)
qed

lemma lower_char_idem: "lower_char (lower_char c) = lower_char c"
  using lower_char_not_upper [of c] by (simp add: lower_char_def [of "lower_char c"])

lemma code_unit_inj: "code_unit a = code_unit b \<Longrightarrow> a = b"
  by (simp add: code_unit_def)

lemma lower_char_fixes: "\<not> is_upper c \<Longrightarrow> lower_char c = c"
  by (simp add: lower_char_def)

lemma lower_char_eq_lower:
  assumes "\<not> is_upper d"
  shows "lower_char c = d \<longleftrightarrow> c = d \<or> (is_upper c \<and> code_unit d = code_unit c + 32)"
proof (cases "is_upper c")
  case False
  with assms show ?thesis by (auto simp: lower_char_def)
next
  case True
  then have lt: "code_unit c + 32 < 256"
    by (auto simp: is_upper_def Let_def)
  have cu: "code_unit (lower_char c) = code_unit c + 32"
    using True lt by (simp add: lower_char_def code_unit_char_of)
  show ?thesis
  proof
    assume "lower_char c = d"
    with cu True show "c = d \<or> (is_upper c \<and> code_unit d = code_unit c + 32)" by simp
  next
    assume "c = d \<or> (is_upper c \<and> code_unit d = code_unit c + 32)"
    with True assms have "code_unit d = code_unit (lower_char c)"
      using cu by auto
    then show "lower_char c = d" by (simp add: code_unit_inj)
  qed
qed

lemma lower_char_slash: "lower_char c = CHR ''/'' \<longleftrightarrow> c = CHR ''/''"
proof -
  have n: "\<not> is_upper CHR ''/''"
    by (simp add: is_upper_def code_unit_def)
  have "\<not> (is_upper c \<and> code_unit CHR ''/'' = code_unit c + 32)"
    by (auto simp: is_upper_def Let_def code_unit_def)
  with lower_char_eq_lower [OF n, of c] show ?thesis by blast
qed

lemma toLowerCase_idem: "toLowerCase (toLowerCase s) = toLowerCase s"
  by (simp add: toLowerCase_def lower_char_idem)

lemma toLowerCase_literals:
  "toLowerCase ''http://'' = ''http://''" "toLowerCase ''https://'' = ''https://''"
  by (simp_all add: toLowerCase_def lower_char_def is_upper_def code_unit_def)

lemma prefix_toLowerCase: "prefix p u \<Longrightarrow> prefix (toLowerCase p) (toLowerCase u)"
  by (auto simp: toLowerCase_def prefix_def)

lemma toLowerCase_strip_trailing_slash:
  "toLowerCase (strip_trailing_slash u) = strip_trailing_slash (toLowerCase u)"
  by (cases u rule: rev_cases)
     (simp_all add: strip_trailing_slash_def toLowerCase_def lower_char_slash)

lemma has_scheme_strip_trailing_slash:
  "has_scheme (strip_trailing_slash u) \<Longrightarrow> has_scheme u"
  by (auto simp: has_scheme_def strip_trailing_slash_def split: if_splits
           dest: prefixeq_butlast [THEN prefix_order.trans[rotated]])

lemma strip_trailing_slash_no_slash:
  "\<not> suffix ''//'' u \<Longrightarrow> \<not> suffix ''/'' (strip_trailing_slash u)"
proof (cases u rule: rev_cases)
  case Nil
  then show ?thesis by (simp add: strip_trailing_slash_def)
next
  case (snoc v c)
  assume ns: "\<not> suffix ''//'' u"
  show ?thesis
  proof (cases "c = CHR ''/''")
    case False
    with snoc show ?thesis by (simp add: strip_trailing_slash_def suffix_def)
  next
    case True
    with snoc have s: "strip_trailing_slash u = v"
      by (simp add: strip_trailing_slash_def)
    show ?thesis
    proof
      assume "suffix ''/'' (strip_trailing_slash u)"
      then obtain w where "v = w @ ''/''" by (auto simp: s suffix_def)
      with snoc True have "u = w @ ''//''" by simp
      with ns show False by (simp add: suffix_def)
    qed
  qed
qed

section \<open>The matcher decides the language of a pattern\<close>

lemma nullable_language: "nullable r \<longleftrightarrow> [] \<in> language r"
  by (induction r) (auto simp: followed_by_def intro: repeated.none)

lemma language_seq' [simp]: "language (seq' r s) = followed_by (language r) (language s)"
  by (cases r) (auto simp: followed_by_def)

lemma language_alt' [simp]: "language (alt' r s) = language r \<union> language s"
  by (cases r; cases s) auto

lemma after_followed_by:
  "after c (followed_by A B) = followed_by (after c A) B \<union> (if [] \<in> A then after c B else {})"
proof -
  have "c # w \<in> followed_by A B \<longleftrightarrow>
          (\<exists>u v. w = u @ v \<and> c # u \<in> A \<and> v \<in> B) \<or> ([] \<in> A \<and> c # w \<in> B)" for w
  proof
    assume "c # w \<in> followed_by A B"
    then obtain u v where uv: "c # w = u @ v" "u \<in> A" "v \<in> B"
      by (auto simp: followed_by_def)
    show "(\<exists>u v. w = u @ v \<and> c # u \<in> A \<and> v \<in> B) \<or> ([] \<in> A \<and> c # w \<in> B)"
    proof (cases u)
      case Nil
      with uv show ?thesis by simp
    next
      case (Cons d u')
      with uv have "w = u' @ v" "c # u' \<in> A" by simp_all
      with uv(3) show ?thesis by blast
    qed
  next
    assume "(\<exists>u v. w = u @ v \<and> c # u \<in> A \<and> v \<in> B) \<or> ([] \<in> A \<and> c # w \<in> B)"
    then show "c # w \<in> followed_by A B"
    proof
      assume "\<exists>u v. w = u @ v \<and> c # u \<in> A \<and> v \<in> B"
      then obtain u v where "w = u @ v" "c # u \<in> A" "v \<in> B" by blast
      then have "c # w = (c # u) @ v" by simp
      with \<open>c # u \<in> A\<close> \<open>v \<in> B\<close> show ?thesis
        unfolding followed_by_def by blast
    next
      assume "[] \<in> A \<and> c # w \<in> B"
      then have "c # w = [] @ (c # w)" "[] \<in> A" "c # w \<in> B" by simp_all
      then show ?thesis unfolding followed_by_def by blast
    qed
  qed
  then show ?thesis
    by (auto simp: after_def followed_by_def)
qed

lemma repeated_front:
  assumes "w \<in> repeated A" "w \<noteq> []"
  shows "\<exists>u v. w = u @ v \<and> u \<noteq> [] \<and> u \<in> A \<and> v \<in> repeated A"
  using assms
proof (induction rule: repeated.induct)
  case none
  then show ?case by simp
next
  case (more u v)
  show ?case
  proof (cases "u = []")
    case True
    with more show ?thesis by simp
  next
    case False
    with more.hyps show ?thesis by blast
  qed
qed

lemma after_repeated: "after c (repeated A) = followed_by (after c A) (repeated A)"
proof (rule set_eqI)
  fix w
  show "w \<in> after c (repeated A) \<longleftrightarrow> w \<in> followed_by (after c A) (repeated A)"
  proof
    assume "w \<in> after c (repeated A)"
    then have "c # w \<in> repeated A" by (simp add: after_def)
    from repeated_front [OF this] obtain u v
      where uv: "c # w = u @ v" "u \<noteq> []" "u \<in> A" "v \<in> repeated A" by auto
    then obtain u' where "u = c # u'" "w = u' @ v"
      by (cases u) auto
    with uv show "w \<in> followed_by (after c A) (repeated A)"
      by (auto simp: followed_by_def after_def)
  next
    assume "w \<in> followed_by (after c A) (repeated A)"
    then obtain u v where "w = u @ v" "c # u \<in> A" "v \<in> repeated A"
      by (auto simp: followed_by_def after_def)
    then have "c # w = (c # u) @ v" and "(c # u) @ v \<in> repeated A"
      by (simp, intro repeated.more)
    then show "w \<in> after c (repeated A)" by (simp add: after_def)
  qed
qed

lemma language_deriv: "language (deriv c r) = after c (language r)"
proof (induction r)
  case Nothing
  then show ?case by (simp add: after_def)
next
  case Eps
  then show ?case by (simp add: after_def)
next
  case (Cls P)
  then show ?case by (auto simp: after_def)
next
  case (Seq r s)
  then show ?case
    by (simp add: after_followed_by nullable_language)
next
  case (Alt r s)
  then show ?case by (auto simp: after_def)
next
  case (Star r)
  then show ?case by (simp add: after_repeated)
qed

lemma matches_language: "matches r s \<longleftrightarrow> s \<in> language r"
proof -
  have "nullable (foldl (\<lambda>r c. deriv c r) r s) \<longleftrightarrow> s \<in> language r"
  proof (induction s arbitrary: r)
    case Nil
    then show ?case by (simp add: nullable_language)
  next
    case (Cons c s)
    then show ?case by (simp add: language_deriv after_def)
  qed
  then show ?thesis by (simp add: matches_def)
qed

lemma repeated_all: "w \<in> repeated {[c] | c. True}"
proof (induction w)
  case Nil
  then show ?case by (rule repeated.none)
next
  case (Cons c w)
  have "[c] \<in> {[c] | c. True}" by simp
  from repeated.more [OF this Cons] show ?case by simp
qed

lemma found_in_language:
  "found_in r s \<longleftrightarrow> (\<exists>before m behind. s = before @ m @ behind \<and> m \<in> language r)"
proof -
  have "s \<in> followed_by (repeated {[c] | c. True}) (followed_by (language r) (repeated {[c] | c. True}))
          \<longleftrightarrow> (\<exists>before m behind. s = before @ m @ behind \<and> m \<in> language r)"
    unfolding followed_by_def using repeated_all by blast
  then show ?thesis
    by (simp add: found_in_def matches_language)
qed

section \<open>normalizeUrl: results\<close>

text \<open>
  C8, as stated, fails: only one leading scheme, and only a lowercase one, is removed, and
  only one trailing slash. For a url ending in two slashes the result still ends in a slash.
\<close>

theorem normalizeUrl_keeps_slash_counterexample:
  "normalizeUrl ''a.com//'' = ''a.com/''"
  by (simp add: normalizeUrl_def strip_scheme_def strip_trailing_slash_def toLowerCase_def
        lower_char_def is_upper_def code_unit_def)

lemma normalizeUrl_uppercase_scheme:
  "normalizeUrl ''HTTP://a.com'' = ''http://a.com''"
  by code_simp

lemma normalizeUrl_repeated_scheme:
  "normalizeUrl ''http://https://a.com'' = ''https://a.com''"
  by code_simp

lemma normalizeUrl_lowercase_scheme:
  assumes low: "scheme_in_lowercase u"
  shows "normalizeUrl u = spec_normalizeUrl u"
proof -
  have "toLowerCase (strip_scheme u) = strip_scheme (toLowerCase u)"
  proof -
    have up: "prefix p u \<Longrightarrow> prefix p (toLowerCase u)"
      if "p = ''http://'' \<or> p = ''https://''" for p
      using that prefix_toLowerCase [of p u] toLowerCase_literals by auto
    have s8: "prefix ''https://'' (toLowerCase u) \<longleftrightarrow> prefix ''https://'' u"
    proof
      assume a: "prefix ''https://'' (toLowerCase u)"
      then have "has_scheme u"
        using low by (simp add: scheme_in_lowercase_def has_scheme_def)
      then consider "prefix ''https://'' u" | "prefix ''http://'' u"
        by (auto simp: has_scheme_def)
      then show "prefix ''https://'' u"
      proof cases
        case 1
        then show ?thesis .
      next
        case 2
        then obtain r where r: "u = ''http://'' @ r" by (auto simp: prefix_def)
        with a have "prefix ''s://'' (toLowerCase (CHR '':'' # CHR ''/'' # CHR ''/'' # r))"
          by (simp add: toLowerCase_def lower_char_def is_upper_def code_unit_def)
        then have False
          by (simp add: toLowerCase_def lower_char_def is_upper_def code_unit_def)
        then show ?thesis ..
      qed
    next
      assume "prefix ''https://'' u"
      then show "prefix ''https://'' (toLowerCase u)" using up by simp
    qed
    have s7: "prefix ''http://'' (toLowerCase u) \<longleftrightarrow> prefix ''http://'' u"
      if "\<not> prefix ''https://'' u"
    proof
      assume "prefix ''http://'' (toLowerCase u)"
      then have "has_scheme u"
        using low by (simp add: scheme_in_lowercase_def has_scheme_def)
      with that show "prefix ''http://'' u" by (simp add: has_scheme_def)
    next
      assume "prefix ''http://'' u"
      then show "prefix ''http://'' (toLowerCase u)" using up by simp
    qed
    show ?thesis
      using s8 s7 by (simp add: strip_scheme_def) (simp add: toLowerCase_def drop_map)
  qed
  then show ?thesis
    by (simp add: normalizeUrl_def spec_normalizeUrl_def toLowerCase_strip_trailing_slash)
qed

text \<open>
  C8, amended. For every url \<open>u\<close> whose scheme prefix, if it has one, is written in lowercase,
  \<open>normalizeUrl u\<close> is the lowercased url with one leading \<open>http://\<close> or \<open>https://\<close> and one
  trailing slash removed. The result does not begin with a scheme prefix when what follows the
  removed prefix does not begin with another one (in any letter case), and it does not end
  with a slash when what follows the removed prefix does not end with two slashes.
\<close>

theorem normalizeUrl_amended:
  "(scheme_in_lowercase u \<longrightarrow> normalizeUrl u = spec_normalizeUrl u) \<and>
   (\<not> has_scheme (toLowerCase (strip_scheme u)) \<longrightarrow> \<not> has_scheme (normalizeUrl u)) \<and>
   (\<not> suffix ''//'' (strip_scheme u) \<longrightarrow> \<not> suffix ''/'' (normalizeUrl u))"
proof (intro conjI impI)
  assume "scheme_in_lowercase u"
  then show "normalizeUrl u = spec_normalizeUrl u"
    by (rule normalizeUrl_lowercase_scheme)
next
  assume "\<not> has_scheme (toLowerCase (strip_scheme u))"
  then show "\<not> has_scheme (normalizeUrl u)"
    using has_scheme_strip_trailing_slash [of "toLowerCase (strip_scheme u)"]
    by (auto simp: normalizeUrl_def toLowerCase_strip_trailing_slash)
next
  assume "\<not> suffix ''//'' (strip_scheme u)"
  then have "\<not> suffix ''/'' (strip_trailing_slash (strip_scheme u))"
    by (rule strip_trailing_slash_no_slash)
  moreover have "suffix ''/'' (toLowerCase v) \<Longrightarrow> suffix ''/'' v" for v
    by (cases v rule: rev_cases) (auto simp: toLowerCase_def suffix_def lower_char_slash)
  ultimately show "\<not> suffix ''/'' (normalizeUrl u)"
    by (auto simp: normalizeUrl_def)
qed

theorem normalizeUrl_amended_witness:
  "scheme_in_lowercase ''https://Example.COM/'' \<and>
   \<not> has_scheme (toLowerCase (strip_scheme ''https://Example.COM/'')) \<and>
   \<not> suffix ''//'' (strip_scheme ''https://Example.COM/'') \<and>
   normalizeUrl ''https://Example.COM/'' = ''example.com'' \<and>
   spec_normalizeUrl ''https://Example.COM/'' = ''example.com'' \<and>
   \<not> has_scheme (normalizeUrl ''https://Example.COM/'') \<and>
   \<not> suffix ''/'' (normalizeUrl ''https://Example.COM/'')"
proof -
  have a: "scheme_in_lowercase ''https://Example.COM/''"
    by (simp add: scheme_in_lowercase_def has_scheme_def)
  have b: "\<not> has_scheme (toLowerCase (strip_scheme ''https://Example.COM/''))"
    by code_simp
  have c: "\<not> suffix ''//'' (strip_scheme ''https://Example.COM/'')"
    by (simp add: strip_scheme_def suffix_Cons)
  have d: "normalizeUrl ''https://Example.COM/'' = ''example.com''"
    by code_simp
  show ?thesis
    using a b c d normalizeUrl_amended [of "''https://Example.COM/''"]
    by (simp add: has_scheme_def suffix_to_prefix)
qed

section \<open>processQueue: a run, record by record\<close>

lemma map_update_one:
  assumes "distinct (map id' (pre @ w # ws))"
  shows "map (\<lambda>x. if id' x = id' w then f x else x) (pre @ w # ws) = pre @ f w # ws"
proof -
  have "\<forall>x \<in> set pre \<union> set ws. id' x \<noteq> id' w"
    using assms by (auto simp: image_iff)
  then have "map (\<lambda>x. if id' x = id' w then f x else x) pre = pre"
    and "map (\<lambda>x. if id' x = id' w then f x else x) ws = ws"
    by (simp_all add: map_idI)
  then show ?thesis by simp
qed

lemma update_item_one:
  assumes "distinct (map id' (pre @ w # ws))" "websites s = pre @ w # ws"
  shows "websites (update_item (id' w) f s) = pre @ f w # ws"
  using map_update_one [OF assms(1)] assms(2) by (simp add: update_item_def)

lemma update_item_other [simp]:
  "isProcessing (update_item i f s) = isProcessing s"
  "notification (update_item i f s) = notification s"
  "history (update_item i f s) = history s"
  "targetAudience (update_item i f s) = targetAudience s"
  by (simp_all add: update_item_def)

lemma pendingItems_simps [simp]:
  "pendingItems [] = []"
  "pendingItems (w # ws) = (if status w = IDLE then w # pendingItems ws else pendingItems ws)"
  by (simp_all add: pendingItems_def)

lemma set_state_mounted: "render_error r = None \<Longrightarrow> set_state f r = r\<lparr>app := f (app r)\<rparr>"
  by (simp add: set_state_def)

lemma set_state_gone: "render_error r = Some x \<Longrightarrow> set_state f r = r"
  by (simp add: set_state_def)

lemma set_state_other [simp]:
  "calls (set_state f r) = calls r"
  "uncaught (set_state f r) = uncaught r"
  "render_error (set_state f r) = render_error r"
  by (simp_all add: set_state_def)

lemma start_item_other [simp]:
  "calls (start_item item aud r) = calls r @ [(url item, aud)]"
  "uncaught (start_item item aud r) = uncaught r"
  "render_error (start_item item aud r) = render_error r"
  by (simp_all add: start_item_def)

text \<open>Once React has removed the component, a run changes nothing of what the page showed.\<close>

lemma end_item_gone:
  assumes "render_error r = Some x"
  shows "app (snd (end_item item result r)) = app r"
    and "render_error (snd (end_item item result r)) = Some x"
  using assms
  by (auto simp: end_item_def set_failed_def set_state_gone split: sum.splits bool.splits)

lemma loop_gone:
  "render_error r = Some x \<Longrightarrow>
     app (processQueue_loop finder aud items r) = app r
     \<and> render_error (processQueue_loop finder aud items r) = Some x"
proof (induction items arbitrary: r)
  case Nil
  then show ?case by (simp add: set_state_gone)
next
  case (Cons item rest)
  let ?r1 = "start_item item aud r"
  have r1: "render_error ?r1 = Some x" "app ?r1 = app r"
    using Cons.prems by (simp_all add: start_item_def set_state_gone)
  obtain go r2 where e: "end_item item (finder (length (calls r)) (url item) aud) ?r1 = (go, r2)"
    by (cases "end_item item (finder (length (calls r)) (url item) aud) ?r1")
  have r2: "app r2 = app r" "render_error r2 = Some x"
    using end_item_gone [OF r1(1), of item "finder (length (calls r)) (url item) aud"] r1(2) e
    by simp_all
  show ?case
    using Cons.IH [OF r2(2)] r2 e by (cases go) simp_all
qed

lemma loop_step:
  assumes "render_error r = None"
  shows "processQueue_loop finder aud (item # rest) r =
     (let r1 = r\<lparr>app := update_item (id' item) (\<lambda>w. w\<lparr>status := PROCESSING\<rparr>) (app r),
                 calls := calls r @ [(url item, aud)]\<rparr>
      in case settle (finder (length (calls r)) (url item) aud) of
           Completed es \<Rightarrow>
             processQueue_loop finder aud rest
               (r1\<lparr>app := update_item (id' item) (\<lambda>w. w\<lparr>status := COMPLETED, emails := es\<rparr>) (app r1)\<rparr>)
         | Failed t \<Rightarrow>
             processQueue_loop finder aud rest
               (r1\<lparr>app := update_item (id' item) (\<lambda>w. w\<lparr>status := FAILED, error := Some t\<rparr>) (app r1)\<rparr>)
         | RateLimited \<Rightarrow>
             r1\<lparr>app := update_item (id' item) (\<lambda>w. w\<lparr>status := IDLE\<rparr>)
                          ((app r1)\<lparr>notification := Some rate_limit_notice, isProcessing := False\<rparr>)\<rparr>
         | Thrown x \<Rightarrow> r1\<lparr>uncaught := Some x\<rparr>
         | Broken x \<Rightarrow>
             processQueue_loop finder aud rest
               (if id' item \<in> set (map id' (websites (app r))) then r1\<lparr>render_error := Some x\<rparr>
                else r1))"
proof -
  have ids: "map id' (websites (update_item i f s)) = map id' (websites s)"
    if "\<And>w. id' (f w) = id' w" for i f and s :: "'a AppState"
    using that by (simp add: update_item_def)
  show ?thesis
    using assms
    by (simp add: settle_def Let_def end_item_def start_item_def set_failed_def set_state_def ids
          split: sum.splits bool.splits)
qed

lemma loop_websites:
  assumes "distinct (map id' (pre @ ws))" "websites (app r) = pre @ ws" "render_error r = None"
  shows "websites (app (processQueue_loop finder aud (pendingItems ws) r))
         = pre @ spec_walk finder aud (length (calls r)) ws"
  using assms
proof (induction ws arbitrary: pre r)
  case Nil
  then show ?case by (simp add: set_state_mounted)
next
  case (Cons w ws)
  show ?case
  proof (cases "status w = IDLE")
    case False
    with Cons.IH [of "pre @ [w]" r] Cons.prems show ?thesis by simp
  next
    case True
    define p where "p = w\<lparr>status := PROCESSING\<rparr>"
    define r1 where "r1 = r\<lparr>app := update_item (id' w) (\<lambda>w. w\<lparr>status := PROCESSING\<rparr>) (app r),
                 calls := calls r @ [(url w, aud)]\<rparr>"
    have w1: "websites (app r1) = pre @ p # ws"
      using update_item_one [OF Cons.prems(1,2)] by (simp add: r1_def p_def)
    have d1: "distinct (map id' (pre @ p # ws))" and idp: "id' p = id' w"
      using Cons.prems(1) by (simp_all add: p_def)
    have m1: "render_error r1 = None"
      using Cons.prems(3) by (simp add: r1_def)
    have step: "websites (update_item (id' w) f s) = pre @ f p # ws"
      if "websites s = websites (app r1)" for f and s :: "'a AppState"
      using update_item_one [OF d1, of s f] w1 that by (simp add: idp)
    have cont: "websites (app (processQueue_loop finder aud (pendingItems ws)
                   (r1\<lparr>app := update_item (id' w) f (app r1)\<rparr>)))
                = pre @ f p # spec_walk finder aud (Suc (length (calls r))) ws"
      if "id' (f p) = id' w" for f
    proof -
      have "distinct (map id' ((pre @ [f p]) @ ws))"
        using Cons.prems(1) that by simp
      moreover have "websites (app (r1\<lparr>app := update_item (id' w) f (app r1)\<rparr>)) = (pre @ [f p]) @ ws"
        using step [of "app r1" f] by simp
      moreover have "length (calls (r1\<lparr>app := update_item (id' w) f (app r1)\<rparr>)) = Suc (length (calls r))"
        by (simp add: r1_def)
      moreover have "render_error (r1\<lparr>app := update_item (id' w) f (app r1)\<rparr>) = None"
        using m1 by simp
      ultimately show ?thesis
        using Cons.IH [of "pre @ [f p]" "r1\<lparr>app := update_item (id' w) f (app r1)\<rparr>"] by simp
    qed
    note unfold = loop_step [OF Cons.prems(3), of finder aud w "pendingItems ws", folded r1_def]
    show ?thesis
    proof (cases "settle (finder (length (calls r)) (url w) aud)")
      case (Completed es)
      show ?thesis
        using True Completed cont [of "\<lambda>w. w\<lparr>status := COMPLETED, emails := es\<rparr>"]
        by (simp add: unfold Let_def p_def del: processQueue_loop.simps)
    next
      case (Failed t)
      show ?thesis
        using True Failed cont [of "\<lambda>w. w\<lparr>status := FAILED, error := Some t\<rparr>"]
        by (simp add: unfold Let_def p_def del: processQueue_loop.simps)
    next
      case RateLimited
      show ?thesis
        using True RateLimited
          step [of "(app r1)\<lparr>notification := Some rate_limit_notice, isProcessing := False\<rparr>"
                   "\<lambda>w. w\<lparr>status := IDLE\<rparr>"]
        by (simp add: unfold Let_def p_def del: processQueue_loop.simps)
    next
      case (Thrown x)
      show ?thesis
        using True Thrown w1
        by (simp add: unfold Let_def p_def del: processQueue_loop.simps)
    next
      case (Broken x)
      have "id' w \<in> set (map id' (websites (app r)))"
        using Cons.prems(2) by simp
      moreover have "app (processQueue_loop finder aud (pendingItems ws) (r1\<lparr>render_error := Some x\<rparr>))
            = app r1"
        using loop_gone [of "r1\<lparr>render_error := Some x\<rparr>" x finder aud "pendingItems ws"] by simp
      ultimately show ?thesis
        using True Broken w1
        by (simp add: unfold Let_def p_def del: processQueue_loop.simps)
    qed
  qed
qed

lemma loop_goes_on:
  assumes "render_error r = None"
    and "\<forall>j < length items. goes_on (settle (finder (length (calls r) + j) (url (items ! j)) aud))"
  shows "\<not> isProcessing (app (processQueue_loop finder aud items r))
       \<and> uncaught (processQueue_loop finder aud items r) = uncaught r
       \<and> render_error (processQueue_loop finder aud items r) = None
       \<and> calls (processQueue_loop finder aud items r) = calls r @ map (\<lambda>w. (url w, aud)) items
       \<and> notification (app (processQueue_loop finder aud items r)) = notification (app r)
       \<and> history (app (processQueue_loop finder aud items r)) = history (app r)
       \<and> targetAudience (app (processQueue_loop finder aud items r)) = targetAudience (app r)"
  using assms
proof (induction items arbitrary: r)
  case Nil
  then show ?case by (simp add: set_state_mounted)
next
  case (Cons item rest)
  have head: "goes_on (settle (finder (length (calls r)) (url item) aud))"
    using Cons.prems(2) by auto
  have tail: "\<forall>j < length rest. goes_on (settle (finder (Suc (length (calls r)) + j) (url (rest ! j)) aud))"
    using Cons.prems(2) by auto
  define r1 where "r1 = r\<lparr>app := update_item (id' item) (\<lambda>w. w\<lparr>status := PROCESSING\<rparr>) (app r),
                 calls := calls r @ [(url item, aud)]\<rparr>"
  obtain f where eq: "processQueue_loop finder aud (item # rest) r =
      processQueue_loop finder aud rest (r1\<lparr>app := update_item (id' item) f (app r1)\<rparr>)"
    using head unfolding r1_def
    by (cases "settle (finder (length (calls r)) (url item) aud)")
       (simp_all add: loop_step [OF Cons.prems(1)] Let_def del: processQueue_loop.simps)
  have m: "render_error (r1\<lparr>app := update_item (id' item) f (app r1)\<rparr>) = None"
    using Cons.prems(1) by (simp add: r1_def)
  have "\<forall>j < length rest. goes_on (settle (finder
           (length (calls (r1\<lparr>app := update_item (id' item) f (app r1)\<rparr>)) + j) (url (rest ! j)) aud))"
    using tail by (simp add: r1_def)
  from Cons.IH [OF m this] show ?case
    unfolding eq by (simp add: r1_def)
qed

lemma loop_pauses:
  assumes "render_error r = None" "K < length items"
    and "\<forall>j < K. goes_on (settle (finder (length (calls r) + j) (url (items ! j)) aud))"
    and "settle (finder (length (calls r) + K) (url (items ! K)) aud) = RateLimited"
  shows "calls (processQueue_loop finder aud items r) = calls r @ map (\<lambda>w. (url w, aud)) (take (Suc K) items)
       \<and> history (app (processQueue_loop finder aud items r)) = history (app r)
       \<and> targetAudience (app (processQueue_loop finder aud items r)) = targetAudience (app r)
       \<and> uncaught (processQueue_loop finder aud items r) = uncaught r
       \<and> render_error (processQueue_loop finder aud items r) = None
       \<and> \<not> isProcessing (app (processQueue_loop finder aud items r))
       \<and> notification (app (processQueue_loop finder aud items r)) = Some rate_limit_notice"
  using assms
proof (induction items arbitrary: r K)
  case Nil
  then show ?case by simp
next
  case (Cons item rest)
  define r1 where "r1 = r\<lparr>app := update_item (id' item) (\<lambda>w. w\<lparr>status := PROCESSING\<rparr>) (app r),
                 calls := calls r @ [(url item, aud)]\<rparr>"
  show ?case
  proof (cases K)
    case 0
    with Cons.prems(4) have "settle (finder (length (calls r)) (url item) aud) = RateLimited"
      by simp
    then have eq: "processQueue_loop finder aud (item # rest) r =
          r1\<lparr>app := update_item (id' item) (\<lambda>w. w\<lparr>status := IDLE\<rparr>)
                          ((app r1)\<lparr>notification := Some rate_limit_notice, isProcessing := False\<rparr>)\<rparr>"
      unfolding r1_def by (simp add: loop_step [OF Cons.prems(1)] Let_def del: processQueue_loop.simps)
    show ?thesis unfolding eq using 0 Cons.prems(1) by (simp add: r1_def)
  next
    case (Suc K')
    have head: "goes_on (settle (finder (length (calls r)) (url item) aud))"
      using Cons.prems(3) Suc by auto
    obtain f where eq: "processQueue_loop finder aud (item # rest) r =
        processQueue_loop finder aud rest (r1\<lparr>app := update_item (id' item) f (app r1)\<rparr>)"
      using head unfolding r1_def
      by (cases "settle (finder (length (calls r)) (url item) aud)")
         (simp_all add: loop_step [OF Cons.prems(1)] Let_def del: processQueue_loop.simps)
    define r2 where "r2 = r1\<lparr>app := update_item (id' item) f (app r1)\<rparr>"
    have c2: "length (calls r2) = Suc (length (calls r))" "calls r2 = calls r @ [(url item, aud)]"
      by (simp_all add: r2_def r1_def)
    have m2: "render_error r2 = None"
      using Cons.prems(1) by (simp add: r2_def r1_def)
    have k: "K' < length rest" using Cons.prems(2) Suc by simp
    have tail: "\<forall>j < K'. goes_on (settle (finder (length (calls r2) + j) (url (rest ! j)) aud))"
      using Cons.prems(3) Suc c2 by auto
    have last: "settle (finder (length (calls r2) + K') (url (rest ! K')) aud) = RateLimited"
      using Cons.prems(4) Suc c2 by simp
    have other: "history (app r2) = history (app r)" "targetAudience (app r2) = targetAudience (app r)"
      "uncaught r2 = uncaught r"
      by (simp_all add: r2_def r1_def)
    from Cons.IH [OF m2 k tail last] show ?thesis
      unfolding eq r2_def [symmetric] using Suc c2 other by simp
  qed
qed

lemma spec_walk_length [simp]: "length (spec_walk finder aud n ws) = length ws"
  by (induction ws arbitrary: n) (simp_all add: Let_def)

lemma queue_position_0 [simp]: "queue_position ws 0 = 0"
  by (simp add: queue_position_def)

lemma queue_position_Suc [simp]:
  "queue_position (w # ws) (Suc i) = (if status w = IDLE then Suc (queue_position ws i) else queue_position ws i)"
  by (simp add: queue_position_def)

lemma spec_walk_nth:
  assumes "K \<le> length (pendingItems ws)"
    and "\<forall>j < K. goes_on (settle (finder (n + j) (url (pendingItems ws ! j)) aud))"
    and "K < length (pendingItems ws) \<longrightarrow>
           \<not> goes_on (settle (finder (n + K) (url (pendingItems ws ! K)) aud))"
    and "i < length ws"
  shows "spec_walk finder aud n ws ! i =
           (if status (ws ! i) = IDLE \<and> queue_position ws i \<le> K
            then record_after (settle (finder (n + queue_position ws i) (url (ws ! i)) aud)) (ws ! i)
            else ws ! i)"
  using assms
proof (induction ws arbitrary: n K i)
  case Nil
  then show ?case by simp
next
  case (Cons w ws)
  show ?case
  proof (cases "status w = IDLE")
    case False
    show ?thesis
    proof (cases i)
      case 0
      with False show ?thesis by simp
    next
      case (Suc i')
      with False Cons.prems Cons.IH [of K n i'] show ?thesis by simp
    qed
  next
    case True
    show ?thesis
    proof (cases K)
      case 0
      with Cons.prems(3) True have stop: "\<not> goes_on (settle (finder n (url w) aud))" by simp
      show ?thesis
      proof (cases i)
        case 0
        with True stop show ?thesis by (simp add: Let_def)
      next
        case (Suc i')
        with True stop \<open>K = 0\<close> show ?thesis by (simp add: Let_def)
      qed
    next
      case (Suc K')
      have go: "goes_on (settle (finder n (url w) aud))"
        using Cons.prems(2) True Suc by auto
      show ?thesis
      proof (cases i)
        case 0
        with True go show ?thesis by (simp add: Let_def)
      next
        case i: (Suc i')
        have a: "K' \<le> length (pendingItems ws)"
          using Cons.prems(1) True Suc by simp
        have b: "\<forall>j < K'. goes_on (settle (finder (Suc n + j) (url (pendingItems ws ! j)) aud))"
          using Cons.prems(2) True Suc by auto
        have c: "K' < length (pendingItems ws) \<longrightarrow>
           \<not> goes_on (settle (finder (Suc n + K') (url (pendingItems ws ! K')) aud))"
          using Cons.prems(3) True Suc by simp
        have d: "i' < length ws" using Cons.prems(4) i by simp
        from Cons.IH [OF a b c d] True go Suc i show ?thesis
          by (simp add: Let_def)
      qed
    qed
  qed
qed

lemma processQueue_websites:
  assumes "\<not> isProcessing s" "distinct (map id' (websites s))"
  shows "websites (app (processQueue finder s)) = spec_walk finder (targetAudience s) 0 (websites s)"
  using assms loop_websites [where pre = "[]" and ws = "websites s" and finder = finder
      and aud = "targetAudience s" and r = "begin_run s"]
  by (simp add: processQueue_def begin_run_def)

lemma filter_nth_position:
  assumes "i < length ws" "P (ws ! i)"
  shows "filter P ws ! length (filter P (take i ws)) = ws ! i"
    and "length (filter P (take i ws)) < length (filter P ws)"
proof -
  have "ws = take i ws @ ws ! i # drop (Suc i) ws"
    using assms(1) by (rule id_take_nth_drop)
  then have "filter P ws = filter P (take i ws) @ filter P (ws ! i # drop (Suc i) ws)"
    by (metis filter_append)
  then have eq: "filter P ws = filter P (take i ws) @ ws ! i # filter P (drop (Suc i) ws)"
    using assms(2) by simp
  show "filter P ws ! length (filter P (take i ws)) = ws ! i"
    by (subst eq) (simp add: nth_append)
  have "length (filter P ws) = length (filter P (take i ws) @ ws ! i # filter P (drop (Suc i) ws))"
    using eq by simp
  then show "length (filter P (take i ws)) < length (filter P ws)"
    by simp
qed

lemma idle_at_position:
  assumes "i < length ws" "status (ws ! i) = IDLE"
  shows "pendingItems ws ! queue_position ws i = ws ! i"
    and "queue_position ws i < length (pendingItems ws)"
  using filter_nth_position [of i ws "\<lambda>w. status w = IDLE"] assms
  by (simp_all add: queue_position_def pendingItems_def)

lemma isRateLimit_flavoured: "isRateLimit err = Inr True \<longleftrightarrow> rate_limit_flavoured err"
proof (cases err)
  case Nullish
  then show ?thesis by (simp add: rate_limit_flavoured_def)
next
  case (ErrObj st cd msg)
  then show ?thesis
    by (cases msg) (auto simp: rate_limit_flavoured_def split: bool.splits)
qed

text \<open>The outcomes as the specification sorts them, and as the \<open>catch\<close> block does.\<close>

lemma settle_rate_limit: "rate_limit_flavoured err \<Longrightarrow> settle (Inl err) = RateLimited"
  using isRateLimit_flavoured [of err] by (simp add: settle_def)

lemma settle_goes_well:
  assumes "goes_well result"
  shows "settle result =
           (case result of Inr es \<Rightarrow> Completed es | Inl err \<Rightarrow> Failed (spec_message err))"
proof (cases result)
  case (Inr es)
  then show ?thesis by (simp add: settle_def)
next
  case (Inl err)
  with assms have p: "plain_failure err" by (simp add: goes_well_def)
  then obtain st cd msg where e: "err = ErrObj st cd msg"
    by (cases err) (simp_all add: plain_failure_def)
  from p e have n: "\<not> rate_limit_flavoured err" and m: "msg \<noteq> Other" "\<forall>n. msg \<noteq> Num n"
    by (auto simp: plain_failure_def split: js_value.splits)
  from n have "isRateLimit err \<noteq> Inr True"
    by (simp add: isRateLimit_flavoured)
  moreover have "\<exists>b. isRateLimit err = Inr b"
    using e m by (cases msg) (auto split: bool.splits)
  ultimately have r: "isRateLimit err = Inr False" by auto
  have "failure_text err = Inr (spec_message err)"
    using e m by (cases msg) (simp_all add: spec_message_def)
  with r Inl show ?thesis by (simp add: settle_def)
qed

lemma record_after_goes_well:
  assumes "goes_well result"
  shows "record_after (settle result) w = spec_record result w" and "goes_on (settle result)"
  using settle_goes_well [OF assms]
  by (cases result; simp add: spec_record_def)+

text \<open>
  A run that meets the rate limit. Let the snapshot of a state that is not running hold more
  than \<open>K\<close> records (counted from 0), let each call before the \<open>K\<close>-th return or be rejected with
  an error object that has no rate-limit signal and whose message is a string or is missing,
  and let the \<open>K\<close>-th be rejected with a rate-limit signal. Then the run leaves every record
  before the \<open>K\<close>-th of the snapshot COMPLETED with the emails returned, or FAILED with the
  message of its error (the generic text for an empty or missing message), leaves every
  other record as it was, the \<open>K\<close>-th and the later ones idle, shows the pause notice, ends
  with the running flag false and without an exception, and has called the finder for the
  first \<open>K + 1\<close> records of the snapshot and for no other. Record ids are unique.
\<close>

lemma processQueue_pauses:
  assumes run: "\<not> isProcessing s" and ids: "distinct (map id' (websites s))"
    and K: "K < length (pendingItems (websites s))"
    and before: "\<forall>j < K. goes_well (finder j (url (pendingItems (websites s) ! j)) (targetAudience s))"
    and at: "finder K (url (pendingItems (websites s) ! K)) (targetAudience s) = Inl err"
    and limit: "rate_limit_flavoured err"
  shows "length (websites (app (processQueue finder s))) = length (websites s)"
    and "\<forall>i < length (websites s).
          websites (app (processQueue finder s)) ! i =
            (if status (websites s ! i) = IDLE \<and> queue_position (websites s) i < K
             then spec_record
                    (finder (queue_position (websites s) i) (url (websites s ! i)) (targetAudience s))
                    (websites s ! i)
             else websites s ! i)"
    and "\<not> isProcessing (app (processQueue finder s))"
    and "notification (app (processQueue finder s)) = Some rate_limit_notice"
    and "uncaught (processQueue finder s) = None"
    and "render_error (processQueue finder s) = None"
    and "calls (processQueue finder s)
        = map (\<lambda>w. (url w, targetAudience s)) (take (Suc K) (pendingItems (websites s)))"
proof -
  let ?ws = "websites s" and ?aud = "targetAudience s"
  let ?pend = "pendingItems (websites s)"
  have go: "\<forall>j < K. goes_on (settle (finder j (url (?pend ! j)) ?aud))"
    using before record_after_goes_well(2) by blast
  have stop: "settle (finder K (url (?pend ! K)) ?aud) = RateLimited"
    using at limit by (simp add: settle_rate_limit)
  have ws': "websites (app (processQueue finder s)) = spec_walk finder ?aud 0 ?ws"
    using run ids by (rule processQueue_websites)
  then show "length (websites (app (processQueue finder s))) = length ?ws"
    by simp
  have nth: "spec_walk finder ?aud 0 ?ws ! i =
           (if status (?ws ! i) = IDLE \<and> queue_position ?ws i \<le> K
            then record_after (settle (finder (queue_position ?ws i) (url (?ws ! i)) ?aud)) (?ws ! i)
            else ?ws ! i)" if "i < length ?ws" for i
    using spec_walk_nth [where K = K and ws = ?ws and finder = finder and n = 0 and aud = ?aud
        and i = i] K go stop that
    by simp
  have rec: "websites (app (processQueue finder s)) ! i =
            (if status (?ws ! i) = IDLE \<and> queue_position ?ws i < K
             then spec_record (finder (queue_position ?ws i) (url (?ws ! i)) ?aud) (?ws ! i)
             else ?ws ! i)" if i: "i < length ?ws" for i
  proof (cases "status (?ws ! i) = IDLE")
    case False
    with nth [OF i] show ?thesis by (simp add: ws')
  next
    case True
    note at_i = idle_at_position(1) [OF i True]
    consider "queue_position ?ws i < K" | "queue_position ?ws i = K" | "K < queue_position ?ws i"
      by linarith
    then show ?thesis
    proof cases
      case 1
      with before at_i
      have "goes_well (finder (queue_position ?ws i) (url (?ws ! i)) ?aud)" by auto
      from record_after_goes_well(1) [OF this] nth [OF i] True 1 show ?thesis
        by (simp add: ws')
    next
      case 2
      with stop at_i True
      have "record_after (settle (finder (queue_position ?ws i) (url (?ws ! i)) ?aud)) (?ws ! i)
              = ?ws ! i"
        by simp
      with nth [OF i] True 2 show ?thesis by (simp add: ws')
    next
      case 3
      with nth [OF i] show ?thesis by (simp add: ws')
    qed
  qed
  then show "\<forall>i < length ?ws.
          websites (app (processQueue finder s)) ! i =
            (if status (?ws ! i) = IDLE \<and> queue_position ?ws i < K
             then spec_record (finder (queue_position ?ws i) (url (?ws ! i)) ?aud) (?ws ! i)
             else ?ws ! i)"
    by blast
  have flags: "calls (processQueue finder s) = map (\<lambda>w. (url w, ?aud)) (take (Suc K) ?pend)
     \<and> uncaught (processQueue finder s) = None \<and> render_error (processQueue finder s) = None
     \<and> \<not> isProcessing (app (processQueue finder s))
     \<and> notification (app (processQueue finder s)) = Some rate_limit_notice"
    using loop_pauses [where K = K and items = ?pend and r = "begin_run s" and finder = finder
        and aud = ?aud] K go stop run
    by (simp add: processQueue_def begin_run_def)
  then show "\<not> isProcessing (app (processQueue finder s))"
    and "notification (app (processQueue finder s)) = Some rate_limit_notice"
    and "uncaught (processQueue finder s) = None"
    and "render_error (processQueue finder s) = None"
    and "calls (processQueue finder s) = map (\<lambda>w. (url w, ?aud)) (take (Suc K) ?pend)"
    by simp_all
qed

lemma two_sites_eq:
  "two_sites =
     \<lparr>websites =
        [\<lparr>id' = 0, url = ''a.com'', status = IDLE, emails = [], error = None, sourceUrl = None\<rparr>,
         \<lparr>id' = 1, url = ''b.com'', status = IDLE, emails = [], error = None, sourceUrl = None\<rparr>],
      isProcessing = False, targetAudience = [], history = [], notification = None\<rparr>"
  by code_simp

lemma three_idle_eq:
  "three_idle =
     \<lparr>websites =
        [\<lparr>id' = 0, url = ''a.com'', status = IDLE, emails = [], error = None, sourceUrl = None\<rparr>,
         \<lparr>id' = 1, url = ''b.com'', status = IDLE, emails = [], error = None, sourceUrl = None\<rparr>,
         \<lparr>id' = 2, url = ''c.com'', status = IDLE, emails = [], error = None, sourceUrl = None\<rparr>],
      isProcessing = False, targetAudience = [], history = [], notification = None\<rparr>"
  by code_simp

lemma processQueue_pauses_example:
  "map status (websites (app (processQueue found_failed_limited three_idle))) = [COMPLETED, FAILED, IDLE]
   \<and> map error (websites (app (processQueue found_failed_limited three_idle)))
       = [None, Some ''fetch failed'', None]
   \<and> \<not> isProcessing (app (processQueue found_failed_limited three_idle))
   \<and> calls (processQueue found_failed_limited three_idle)
       = [(''a.com'', []), (''b.com'', []), (''c.com'', [])]"
  unfolding three_idle_eq by code_simp

text \<open>
  C1. The property fails when a call before the rate-limited one is rejected with \<open>null\<close> or
  \<open>undefined\<close>. The \<open>catch\<close> block tests the error with \<open>error?.status\<close>, \<open>error?.code\<close> and
  \<open>error?.message?.includes\<close>, finds no rate limit, and then builds the FAILED record from
  \<open>error.message\<close>, without the \<open>?.\<close>: the updater throws when React applies it. Here the
  first of two calls is rejected with \<open>null\<close> and the second with status 429. After the run
  the first record is not FAILED but still PROCESSING, without an error text; the second is
  IDLE; the running flag is still true and no pause notice is shown; both calls were made;
  and the component is gone with a TypeError.
\<close>

theorem processQueue_null_rejection:
  "map status (websites (app (processQueue null_then_limited two_sites))) = [PROCESSING, IDLE]
   \<and> map error (websites (app (processQueue null_then_limited two_sites))) = [None, None]
   \<and> isProcessing (app (processQueue null_then_limited two_sites))
   \<and> notification (app (processQueue null_then_limited two_sites)) = None
   \<and> render_error (processQueue null_then_limited two_sites) = Some TypeError
   \<and> uncaught (processQueue null_then_limited two_sites) = None
   \<and> calls (processQueue null_then_limited two_sites) = [(''a.com'', []), (''b.com'', [])]"
  unfolding two_sites_eq by code_simp

text \<open>
  C2. When every call of the finder succeeds, a run from a state that is not running turns
  every idle record into a COMPLETED one holding the emails its call returned (the call number
  of a record is its place in the snapshot), leaves the other records as they were, ends with
  the running flag false and has called the finder once for each record of the snapshot.
  Record ids are unique.
\<close>

theorem processQueue_all_succeed:
  assumes run: "\<not> isProcessing s" and ids: "distinct (map id' (websites s))"
    and succeeds: "\<forall>n u a. \<exists>found_emails. finder n u a = Inr found_emails"
  shows "length (websites (app (processQueue finder s))) = length (websites s)
    \<and> (\<forall>i < length (websites s).
          if status (websites s ! i) = IDLE
          then \<exists>found_emails.
                 finder (queue_position (websites s) i) (url (websites s ! i)) (targetAudience s)
                   = Inr found_emails
                 \<and> websites (app (processQueue finder s)) ! i
                   = (websites s ! i)\<lparr>status := COMPLETED, emails := found_emails\<rparr>
          else websites (app (processQueue finder s)) ! i = websites s ! i)
    \<and> \<not> isProcessing (app (processQueue finder s))
    \<and> uncaught (processQueue finder s) = None
    \<and> render_error (processQueue finder s) = None
    \<and> calls (processQueue finder s)
        = map (\<lambda>w. (url w, targetAudience s)) (pendingItems (websites s))"
proof -
  let ?ws = "websites s" and ?aud = "targetAudience s"
  let ?pend = "pendingItems ?ws"
  have go: "goes_on (settle (finder n u a))" for n u a
    using succeeds [rule_format, of n u a] by (auto simp: settle_def)
  have ws': "websites (app (processQueue finder s)) = spec_walk finder ?aud 0 ?ws"
    using run ids by (rule processQueue_websites)
  have nth: "spec_walk finder ?aud 0 ?ws ! i =
           (if status (?ws ! i) = IDLE \<and> queue_position ?ws i \<le> length ?pend
            then record_after (settle (finder (queue_position ?ws i) (url (?ws ! i)) ?aud)) (?ws ! i)
            else ?ws ! i)" if "i < length ?ws" for i
    using spec_walk_nth [where K = "length ?pend" and ws = ?ws and finder = finder and n = 0
        and aud = ?aud and i = i] go that by simp
  have rec: "if status (?ws ! i) = IDLE
          then \<exists>found_emails.
                 finder (queue_position ?ws i) (url (?ws ! i)) ?aud = Inr found_emails
                 \<and> websites (app (processQueue finder s)) ! i
                   = (?ws ! i)\<lparr>status := COMPLETED, emails := found_emails\<rparr>
          else websites (app (processQueue finder s)) ! i = ?ws ! i" if i: "i < length ?ws" for i
  proof (cases "status (?ws ! i) = IDLE")
    case True
    obtain es where es: "finder (queue_position ?ws i) (url (?ws ! i)) ?aud = Inr es"
      using succeeds by blast
    have "queue_position ?ws i \<le> length ?pend"
      using idle_at_position(2) [OF i True] by simp
    with nth [OF i] True es show ?thesis
      by (simp add: ws' settle_def)
  next
    case False
    with nth [OF i] show ?thesis by (simp add: ws')
  qed
  have flags: "\<not> isProcessing (app (processQueue finder s))
     \<and> uncaught (processQueue finder s) = None
     \<and> render_error (processQueue finder s) = None
     \<and> calls (processQueue finder s) = map (\<lambda>w. (url w, ?aud)) ?pend"
    using loop_goes_on [where items = ?pend and r = "begin_run s" and finder = finder and aud = ?aud]
      go run
    by (simp add: processQueue_def begin_run_def)
  have len: "length (websites (app (processQueue finder s))) = length ?ws"
    by (simp add: ws')
  show ?thesis
    using len rec flags by blast
qed

theorem processQueue_all_succeed_witness:
  "\<not> isProcessing three_idle
   \<and> distinct (map id' (websites three_idle))
   \<and> map status (websites (app (processQueue always_finds three_idle)))
       = [COMPLETED, COMPLETED, COMPLETED]
   \<and> map emails (websites (app (processQueue always_finds three_idle)))
       = [[''info@a.com''], [''info@b.com''], [''info@c.com'']]
   \<and> \<not> isProcessing (app (processQueue always_finds three_idle))"
proof -
  have a: "\<not> isProcessing three_idle" and b: "distinct (map id' (websites three_idle))"
    by (simp_all add: three_idle_eq)
  have c: "\<forall>n u a. \<exists>found_emails. always_finds n u a = Inr found_emails"
    by (simp add: always_finds_def)
  note main = processQueue_all_succeed [where s = three_idle and finder = always_finds, OF a b c]
  have len: "length (websites (app (processQueue always_finds three_idle))) = 3"
    using main by (simp add: three_idle_eq)
  have "\<forall>i < 3. status (websites (app (processQueue always_finds three_idle)) ! i)
            = [COMPLETED, COMPLETED, COMPLETED] ! i
          \<and> emails (websites (app (processQueue always_finds three_idle)) ! i)
            = [[''info@a.com''], [''info@b.com''], [''info@c.com'']] ! i"
    using main
    by (auto simp add: three_idle_eq always_finds_def less_Suc_eq numeral_3_eq_3)
  then have st: "map status (websites (app (processQueue always_finds three_idle)))
       = [COMPLETED, COMPLETED, COMPLETED]"
    and em: "map emails (websites (app (processQueue always_finds three_idle)))
       = [[''info@a.com''], [''info@b.com''], [''info@c.com'']]"
    using len by (simp_all add: list_eq_iff_nth_eq)
  have fl: "\<not> isProcessing (app (processQueue always_finds three_idle))"
    using main by simp
  show ?thesis
    using a b st em fl by blast
qed

section \<open>The list and the history in every reachable state\<close>

lemma obj_define_keys: "fst ` set (obj_define h k v) = insert k (fst ` set h)"
  by (induction h k v rule: obj_define.induct) auto

lemma obj_define_distinct: "distinct (map fst h) \<Longrightarrow> distinct (map fst (obj_define h k v))"
proof (induction h k v rule: obj_define.induct)
  case (1 k v)
  then show ?case by simp
next
  case (2 k' v' h k v)
  then show ?case
    using obj_define_keys [of h k v] by (auto simp: image_iff)
qed

lemma map_of_obj_define: "map_of (obj_define h k v) = (map_of h)(k \<mapsto> v)"
  by (induction h k v rule: obj_define.induct) (auto simp: fun_eq_iff)

lemma obj_set_distinct: "distinct (map fst h) \<Longrightarrow> distinct (map fst (obj_set h k v))"
  by (simp add: obj_set_def obj_define_distinct)

lemma map_of_obj_set:
  "k \<noteq> ''__proto__'' \<Longrightarrow> map_of (obj_set h k v) = (map_of h)(k \<mapsto> v)"
  by (simp add: obj_set_def map_of_obj_define)

lemma initial_history_distinct: "distinct (map fst (history (initial saved)))"
proof -
  have "distinct (map fst h) \<Longrightarrow> distinct (map fst (foldl (\<lambda>h (k, v). obj_define h k v) h members))"
    for h :: "'a History" and members
    by (induction members arbitrary: h) (auto simp: obj_define_distinct)
  from this [of "[]"] show ?thesis
    by (simp add: initial_def split: option.splits)
qed

lemma save_each_distinct:
  "distinct (map fst (fst acc)) \<Longrightarrow> distinct (map fst (fst (save_each acc w)))"
  by (cases acc) (simp add: save_each_def obj_set_distinct)

lemma foldl_save_each_distinct:
  "distinct (map fst (fst acc)) \<Longrightarrow> distinct (map fst (fst (foldl save_each acc ws)))"
  by (induction ws arbitrary: acc) (simp_all add: save_each_distinct)

lemma set_array_from_set: "set (foldl set_add seen xs) = set seen \<union> set xs"
  by (induction xs arbitrary: seen) auto

lemma distinct_foldl_set_add: "distinct seen \<Longrightarrow> distinct (foldl set_add seen xs)"
  by (induction xs arbitrary: seen) auto

lemma array_from_set_set [simp]: "set (array_from_set xs) = set xs"
  by (simp add: array_from_set_def set_array_from_set)

lemma array_from_set_distinct [simp]: "distinct (array_from_set xs)"
  by (simp add: array_from_set_def distinct_foldl_set_add)

text \<open>The loop of addUrls.\<close>

lemma addUrls_each_cases:
  "normalizeUrl u \<in> set (currentNormalized a) \<Longrightarrow>
     addUrls_each g h a u = a\<lparr>skippedDuplicateCount := skippedDuplicateCount a + 1\<rparr>"
  "normalizeUrl u \<notin> set (currentNormalized a) \<Longrightarrow> in_history h (normalizeUrl u) \<Longrightarrow>
     addUrls_each g h a u = a\<lparr>skippedHistoryCount := skippedHistoryCount a + 1\<rparr>"
  "normalizeUrl u \<notin> set (currentNormalized a) \<Longrightarrow> \<not> in_history h (normalizeUrl u) \<Longrightarrow>
     addUrls_each g h a u =
       a\<lparr>newEntries := newEntries a @
            [\<lparr>id' = g (length (newEntries a)), url = u, status = IDLE, emails = [], error = None,
              sourceUrl = None\<rparr>],
         currentNormalized := currentNormalized a @ [normalizeUrl u]\<rparr>"
  by (simp_all add: addUrls_each_def Let_def)

lemma scan_ok_step:
  assumes "scan_ok g h N seen a"
  shows "scan_ok g h N (seen @ [u]) (addUrls_each g h a u)"
proof -
  consider (dup) "normalizeUrl u \<in> set (currentNormalized a)"
    | (hist) "normalizeUrl u \<notin> set (currentNormalized a)" "in_history h (normalizeUrl u)"
    | (new) "normalizeUrl u \<notin> set (currentNormalized a)" "\<not> in_history h (normalizeUrl u)"
    by blast
  then show ?thesis
  proof cases
    case dup
    have "normalizeUrl u \<notin> N \<Longrightarrow> \<not> in_history h (normalizeUrl u)"
      using assms dup by (auto simp: scan_ok_def)
    with assms dup show ?thesis
      by (auto simp: addUrls_each_cases(1) scan_ok_def)
  next
    case hist
    with assms have "normalizeUrl u \<notin> N" by (auto simp: scan_ok_def)
    with assms hist show ?thesis
      by (auto simp: addUrls_each_cases(2) scan_ok_def)
  next
    case new
    with assms have n: "normalizeUrl u \<notin> N" "normalizeUrl u \<notin> normalized_urls (newEntries a)"
      by (auto simp: scan_ok_def)
    with assms new show ?thesis
      by (auto simp: addUrls_each_cases(3) [OF new] scan_ok_def normalized_urls_def)
  qed
qed

lemma scan_ok_foldl:
  "scan_ok g h N seen a \<Longrightarrow> scan_ok g h N (seen @ urls) (foldl (addUrls_each g h) a urls)"
proof (induction urls arbitrary: seen a)
  case Nil
  then show ?case by simp
next
  case (Cons u urls)
  from Cons.IH [OF scan_ok_step [OF Cons.prems, of u]] show ?case by simp
qed

lemma scan_ok_loop:
  "scan_ok g (history s) (normalized_urls (websites s)) urls (addUrls_loop g s urls)"
proof -
  have "scan_ok g (history s) (normalized_urls (websites s)) []
     \<lparr>newEntries = [], skippedHistoryCount = 0, skippedDuplicateCount = 0,
      currentNormalized = array_from_set (map (\<lambda>w. normalizeUrl (url w)) (websites s))\<rparr>"
    by (simp add: scan_ok_def normalized_urls_def)
  from scan_ok_foldl [OF this, of urls] show ?thesis
    by (simp add: addUrls_loop_def)
qed

lemma addUrls_other [simp]:
  "history (addUrls g urls render s) = history s"
  "isProcessing (addUrls g urls render s) = isProcessing s"
  "targetAudience (addUrls g urls render s) = targetAudience s"
  "websites (addUrls g urls render s) = websites s @ newEntries (addUrls_loop g render urls)"
  by (simp_all add: addUrls_def Let_def)

lemma invariant_addUrls:
  assumes "invariant s" "fresh_ids g s"
  shows "invariant (addUrls g urls render s)"
proof -
  let ?a = "addUrls_loop g render urls"
  have ok: "scan_ok g (history render) (normalized_urls (websites render)) urls ?a"
    by (rule scan_ok_loop)
  have ids: "distinct (map id' (websites s @ newEntries ?a))"
  proof -
    have "distinct (map g [0..<length (newEntries ?a)])"
      using assms(2) by (simp add: fresh_ids_def distinct_map inj_on_def inj_def)
    moreover have "set (map g [0..<length (newEntries ?a)]) \<inter> id' ` set (websites s) = {}"
      using assms(2) by (auto simp: fresh_ids_def)
    ultimately show ?thesis
      using assms(1) ok by (auto simp: invariant_def scan_ok_def)
  qed
  have good: "good_record e" if "e \<in> set (newEntries ?a)" for e
    using ok that by (auto simp: scan_ok_def good_record_def in_history_def normalized_urls_def)
  show ?thesis
    using assms(1) ids good by (auto simp: invariant_def)
qed

lemma holds_no_emails_addUrls:
  assumes "holds_no_emails items s"
  shows "holds_no_emails items (addUrls g urls render s)"
proof -
  have "emails e = []" if "e \<in> set (newEntries (addUrls_loop g render urls))" for e
    using scan_ok_loop [of g render urls] that by (auto simp: scan_ok_def)
  with assms show ?thesis
    by (auto simp: holds_no_emails_def)
qed

lemma invariant_removeWebsite: "invariant s \<Longrightarrow> invariant (removeWebsite i s)"
  by (auto simp: invariant_def removeWebsite_def distinct_map_filter)

lemma invariant_clearList: "invariant s \<Longrightarrow> invariant (clearList c s)"
  by (auto simp: invariant_def clearList_def)

lemma saveAndClear_cases:
  assumes "saveAndClear b s = Inr s'"
  shows "s' = s \<or>
    (websites s' = [] \<and> history s' = fst (foldl save_each (history s, 0) (websites s))
     \<and> isProcessing s' = isProcessing s \<and> targetAudience s' = targetAudience s)"
  using assms
  by (auto simp: saveAndClear_def split: if_splits prod.splits)

lemma invariant_saveAndClear:
  assumes "invariant s" "saveAndClear b s = Inr s'"
  shows "invariant s'"
proof -
  have "distinct (map fst (fst (foldl save_each (history s, 0) (websites s))))"
    using assms(1) by (intro foldl_save_each_distinct) (simp add: invariant_def)
  with saveAndClear_cases [OF assms(2)] assms(1) show ?thesis
    by (auto simp: invariant_def)
qed

lemma invariant_update_item:
  assumes "invariant s"
    and "\<And>w. w \<in> set (websites s) \<Longrightarrow> id' w = i \<Longrightarrow> good_record (f w) \<and> id' (f w) = id' w"
  shows "invariant (update_item i f s)"
proof -
  have ids: "map id' (websites (update_item i f s)) = map id' (websites s)"
  proof -
    have "map (\<lambda>w. id' (if id' w = i then f w else w)) (websites s) = map id' (websites s)"
      by (rule map_cong [OF refl]) (use assms(2) in auto)
    then show ?thesis by (simp add: update_item_def comp_def)
  qed
  have good: "\<forall>w \<in> set (websites (update_item i f s)). good_record w"
    using assms by (auto simp: invariant_def update_item_def)
  show ?thesis
    unfolding invariant_def using assms(1) good by (simp add: ids invariant_def)
qed

lemma holds_no_emails_update_item:
  assumes "holds_no_emails items s"
    and "\<And>w. w \<in> set (websites s) \<Longrightarrow> id' w = i \<Longrightarrow>
            id' (f w) = id' w \<and> (emails (f w) = emails w \<or> i \<notin> id' ` set items)"
  shows "holds_no_emails items (update_item i f s)"
  using assms by (fastforce simp: holds_no_emails_def update_item_def)

lemma holds_no_emails_subset:
  "holds_no_emails items s \<Longrightarrow> set rest \<subseteq> set items \<Longrightarrow> set (websites s') \<subseteq> set (websites s) \<Longrightarrow>
     holds_no_emails rest s'"
  by (auto simp: holds_no_emails_def)

lemma holds_no_emails_snapshot:
  assumes "invariant s"
  shows "holds_no_emails (pendingItems (websites s)) s"
proof -
  have "emails w = []"
    if "item \<in> set (websites s)" "status item = IDLE" "w \<in> set (websites s)" "id' w = id' item"
    for item w
  proof -
    have "inj_on id' (set (websites s))"
      using assms by (simp add: invariant_def distinct_map)
    with that have "w = item" by (auto dest: inj_onD)
    with that assms show ?thesis by (auto simp: invariant_def good_record_def)
  qed
  then show ?thesis
    by (auto simp: holds_no_emails_def pendingItems_def)
qed

text \<open>The steps of a session keep it sound.\<close>

lemma sound_set_state:
  assumes "sound c"
    and "invariant (app (page c)) \<Longrightarrow> invariant (f (app (page c)))"
    and "holds_no_emails (run_items (suspended c)) (app (page c)) \<Longrightarrow>
           holds_no_emails (run_items (suspended c)) (f (app (page c)))"
    and "isProcessing (f (app (page c))) = isProcessing (app (page c))"
  shows "sound (c\<lparr>page := set_state f (page c)\<rparr>)"
  using assms by (simp add: sound_def set_state_def)

lemma start_item_sound:
  assumes "invariant (app r)" "holds_no_emails (item # rest) (app r)"
  shows "invariant (app (start_item item aud r))"
    and "holds_no_emails (item # rest) (app (start_item item aud r))"
    and "isProcessing (app (start_item item aud r)) = isProcessing (app r)"
proof -
  have e: "emails w = []" if "w \<in> set (websites (app r))" "id' w = id' item" for w
    using assms(2) that by (auto simp: holds_no_emails_def)
  have g: "good_record (w\<lparr>status := PROCESSING\<rparr>)"
    if "w \<in> set (websites (app r))" "id' w = id' item" for w
    using assms(1) e [OF that] that by (auto simp: invariant_def good_record_def)
  show "invariant (app (start_item item aud r))"
    using assms(1) g by (auto simp: start_item_def set_state_def intro!: invariant_update_item)
  show "holds_no_emails (item # rest) (app (start_item item aud r))"
    using assms(2) by (auto simp: start_item_def set_state_def intro!: holds_no_emails_update_item)
  show "isProcessing (app (start_item item aud r)) = isProcessing (app r)"
    by (simp add: start_item_def set_state_def)
qed

lemma sound_advance:
  assumes "invariant (app (page c))" "distinct (map id' items)"
    and "holds_no_emails items (app (page c))"
    and "items \<noteq> [] \<Longrightarrow> isProcessing (app (page c))"
  shows "sound (advance aud items c)"
proof (cases items)
  case Nil
  with assms(1) show ?thesis
    by (simp add: sound_def set_state_def invariant_def holds_no_emails_def)
next
  case (Cons item rest)
  with assms start_item_sound [of "page c" item rest aud] show ?thesis
    by (simp add: sound_def)
qed

lemma end_item_sound:
  assumes "invariant (app r)" "holds_no_emails (item # rest) (app r)"
    and "distinct (map id' (item # rest))" and "end_item item result r = (go, r')"
  shows "invariant (app r')" and "holds_no_emails rest (app r')"
    and "go \<Longrightarrow> isProcessing (app r') = isProcessing (app r)"
proof -
  have e: "emails w = []" if "w \<in> set (websites (app r))" "id' w = id' item" for w
    using assms(2) that by (auto simp: holds_no_emails_def)
  have inv: "invariant (update_item (id' item) f (app r))"
    if "\<And>w. id' (f w) = id' w \<and> url (f w) = url w \<and> status (f w) \<noteq> PENDING
           \<and> (emails (f w) = emails w \<or> status (f w) = COMPLETED)" for f
  proof (rule invariant_update_item [OF assms(1)])
    fix w assume w: "w \<in> set (websites (app r))" "id' w = id' item"
    then have "good_record w" using assms(1) by (simp add: invariant_def)
    with that [of w] e [OF w] show "good_record (f w) \<and> id' (f w) = id' w"
      by (auto simp: good_record_def)
  qed
  have rest: "holds_no_emails rest (app r)"
    using assms(2) by (auto simp: holds_no_emails_def)
  have hold: "holds_no_emails rest (update_item (id' item) f (app r))"
    if "\<And>w. id' (f w) = id' w" for f
    using assms(3) that by (intro holds_no_emails_update_item [OF rest]) auto
  have plain: "invariant s \<and> holds_no_emails rest s"
    if "websites s = websites (app r)" "history s = history (app r)" for s :: "'a AppState"
    using assms(1) rest that by (simp add: invariant_def holds_no_emails_def)
  have all: "invariant (app r') \<and> holds_no_emails rest (app r')
      \<and> (go \<longrightarrow> isProcessing (app r') = isProcessing (app r))"
  proof (cases result)
    case (Inr es)
    with assms(4) assms(1) rest
      inv [of "\<lambda>w. w\<lparr>status := COMPLETED, emails := es\<rparr>"]
      hold [of "\<lambda>w. w\<lparr>status := COMPLETED, emails := es\<rparr>"]
    show ?thesis
      by (auto simp: end_item_def set_state_def split: if_splits)
  next
    case (Inl err)
    show ?thesis
    proof (cases "isRateLimit err")
      case (Inl x)
      with \<open>result = Inl err\<close> assms(4) assms(1) rest show ?thesis
        by (auto simp: end_item_def)
    next
      case (Inr limited)
      show ?thesis
      proof (cases limited)
        case True
        let ?s = "(app r)\<lparr>notification := Some rate_limit_notice, isProcessing := False\<rparr>"
        have i: "invariant ?s" and h: "holds_no_emails (item # rest) ?s"
          using assms(1,2) by (simp_all add: invariant_def holds_no_emails_def)
        have e': "emails w = []" if "w \<in> set (websites ?s)" "id' w = id' item" for w
          using e that by simp
        have "invariant (update_item (id' item) (\<lambda>w. w\<lparr>status := IDLE\<rparr>) ?s)"
        proof (rule invariant_update_item [OF i])
          fix w assume w: "w \<in> set (websites ?s)" "id' w = id' item"
          then have "good_record w" using i by (simp add: invariant_def)
          with e' [OF w] show "good_record (w\<lparr>status := IDLE\<rparr>) \<and> id' (w\<lparr>status := IDLE\<rparr>) = id' w"
            by (auto simp: good_record_def)
        qed
        moreover have "holds_no_emails rest (update_item (id' item) (\<lambda>w. w\<lparr>status := IDLE\<rparr>) ?s)"
          using h by (intro holds_no_emails_update_item) (auto simp: holds_no_emails_def)
        ultimately show ?thesis
          using \<open>result = Inl err\<close> Inr True assms(4) assms(1) rest
          by (auto simp: end_item_def set_state_def split: if_splits)
      next
        case False
        show ?thesis
        proof (cases "failure_text err")
          case (Inl x)
          with \<open>result = Inl err\<close> \<open>isRateLimit err = Inr limited\<close> False assms(4) assms(1) rest
          show ?thesis
            by (auto simp: end_item_def set_failed_def split: if_splits)
        next
          case (Inr t)
          with \<open>result = Inl err\<close> \<open>isRateLimit err = Inr limited\<close> False assms(4) assms(1) rest
            inv [of "\<lambda>w. w\<lparr>status := FAILED, error := Some t\<rparr>"]
            hold [of "\<lambda>w. w\<lparr>status := FAILED, error := Some t\<rparr>"]
          show ?thesis
            by (auto simp: end_item_def set_failed_def set_state_def split: if_splits)
        qed
      qed
    qed
  qed
  then show "invariant (app r')" and "holds_no_emails rest (app r')"
    and "go \<Longrightarrow> isProcessing (app r') = isProcessing (app r)"
    by simp_all
qed

lemma session_sound: "session c \<Longrightarrow> sound c"
proof (induction rule: session.induct)
  case (first_render saved)
  then show ?case
    using initial_history_distinct [of saved]
    by (simp add: sound_def invariant_def holds_no_emails_def initial_def)
next
  case (audience c a)
  then show ?case
    by (intro sound_set_state) (simp_all add: invariant_def holds_no_emails_def)
next
  case (dismiss c)
  then show ?case
    by (intro sound_set_state) (simp_all add: invariant_def holds_no_emails_def)
next
  case (paste c uuidv4 urls)
  then show ?case
    by (intro sound_set_state) (simp_all add: invariant_addUrls holds_no_emails_addUrls)
next
  case (give_file c)
  then show ?case by (simp add: sound_def)
next
  case (file_read c render uuidv4 urls)
  have "sound (c\<lparr>page := set_state (addUrls uuidv4 urls render) (page c)\<rparr>)"
    using file_read
    by (intro sound_set_state) (simp_all add: invariant_addUrls holds_no_emails_addUrls)
  then show ?case by (simp add: sound_def)
next
  case (remove c i)
  have "holds_no_emails items (removeWebsite i s)" if "holds_no_emails items s"
    for items and s :: "'a AppState"
    using that by (auto simp: removeWebsite_def holds_no_emails_def)
  moreover have "isProcessing (removeWebsite i s) = isProcessing s" for s :: "'a AppState"
    by (simp add: removeWebsite_def)
  ultimately show ?case
    using remove.IH by (intro sound_set_state) (simp_all add: invariant_removeWebsite)
next
  case (clear c confirmed)
  have "holds_no_emails items (clearList confirmed s)" if "holds_no_emails items s"
    for items and s :: "'a AppState"
    using that by (auto simp: clearList_def holds_no_emails_def)
  moreover have "isProcessing (clearList confirmed s) = isProcessing s" for s :: "'a AppState"
    by (simp add: clearList_def)
  ultimately show ?case
    using clear.IH by (intro sound_set_state) (simp_all add: invariant_clearList)
next
  case (save c storage_accepts s')
  from saveAndClear_cases [OF save.hyps(2)] save.IH show ?case
    by (intro sound_set_state)
       (auto simp: invariant_saveAndClear [OF _ save.hyps(2)] holds_no_emails_def)
next
  case (click c)
  let ?s = "app (page c)"
  have i: "invariant ?s" using click.IH by (simp add: sound_def)
  then have i': "invariant (app (begin_run ?s))"
    by (simp add: begin_run_def invariant_def)
  have d: "distinct (map id' (pendingItems (websites ?s)))"
    using i by (simp add: invariant_def pendingItems_def distinct_map_filter)
  have h: "holds_no_emails (pendingItems (websites ?s)) (app (begin_run ?s))"
    using holds_no_emails_snapshot [OF i] by (simp add: begin_run_def holds_no_emails_def)
  show ?case
    using i' d h by (intro sound_advance) (simp_all add: begin_run_def)
next
  case (answer c item rest audience result go r)
  from answer.IH answer.hyps(2)
  have i: "invariant (app (page c))" and h: "holds_no_emails (item # rest) (app (page c))"
    and d: "distinct (map id' (item # rest))" and p: "isProcessing (app (page c))"
    by (simp_all add: sound_def)
  from end_item_sound [OF i h d answer.hyps(3)] d p show ?case
    by (simp add: sound_def holds_no_emails_def)
next
  case (pause_over c rest audience)
  then show ?case
    by (intro sound_advance) (simp_all add: sound_def)
qed

lemma reachable_invariant: "reachable s \<Longrightarrow> invariant s"
  using session_sound by (auto simp: reachable_def sound_def)

text \<open>
  At most one \<open>processQueue\<close> is suspended at a time: while one is, \<open>isProcessing\<close> holds, and
  a click returns at once.
\<close>

lemma suspended_is_processing:
  "session c \<Longrightarrow> suspended c \<noteq> None \<Longrightarrow> isProcessing (app (page c))"
  using session_sound by (auto simp: sound_def)

text \<open>A run that nothing interrupts is a path of the session.\<close>

lemma session_advance:
  assumes "session (advance aud items c)"
  shows "\<exists>c'. session c' \<and> page c' = processQueue_loop finder aud items (page c)
             \<and> reading c' = reading c \<and> suspended c' = None"
  using assms
proof (induction items arbitrary: c)
  case Nil
  then show ?case by (intro exI [of _ "advance aud [] c"]) simp
next
  case (Cons item rest)
  let ?c1 = "advance aud (item # rest) c"
  obtain go r where e: "end_item item (finder (length (calls (page c))) (url item) aud)
                          (start_item item aud (page c)) = (go, r)"
    by (cases "end_item item (finder (length (calls (page c))) (url item) aud)
                 (start_item item aud (page c))")
  let ?c2 = "?c1\<lparr>page := r, suspended := (if go then Some (Delay rest, aud) else None)\<rparr>"
  have s2: "session ?c2"
    using Cons.prems e by (intro session.answer [where item = item and rest = rest]) simp_all
  show ?case
  proof (cases go)
    case False
    with s2 e show ?thesis
      by (intro exI [of _ ?c2]) simp
  next
    case True
    with s2 have "session (advance aud rest ?c2)"
      by (intro session.pause_over) simp_all
    from Cons.IH [OF this] True e show ?thesis by simp
  qed
qed

lemma session_processQueue:
  assumes "session c" "render_error (page c) = None" "\<not> isProcessing (app (page c))"
  shows "\<exists>c'. session c' \<and> page c' = processQueue finder (app (page c))
             \<and> reading c' = reading c \<and> suspended c' = None"
  using session_advance [OF session.click [OF assms], of finder] assms(3)
  by (simp add: processQueue_def)

lemma session_paste:
  assumes "session c" "render_error (page c) = None" "fresh_ids g (app (page c))"
  shows "\<exists>c'. session c' \<and> app (page c') = addUrls g urls (app (page c)) (app (page c))
             \<and> render_error (page c') = None \<and> reading c' = reading c \<and> suspended c' = suspended c"
  using session.paste [OF assms(1,3), of urls] assms(2)
  by (intro exI [of _ "c\<lparr>page := set_state (addUrls g urls (app (page c))) (page c)\<rparr>"])
     (simp add: set_state_def)

lemma session_first_page: "session first_page"
  unfolding first_page_def by (rule session.first_render)

lemma session_pasted_first:
  "\<exists>c. session c \<and> app (page c) = addUrls (\<lambda>n. n) urls (initial None) (initial None)
       \<and> render_error (page c) = None"
proof -
  have "fresh_ids (\<lambda>n. n) (app (page first_page))"
    by (simp add: fresh_ids_def first_page_def initial_def)
  from session_paste [OF session_first_page _ this, of urls] show ?thesis
    by (auto simp: first_page_def)
qed

lemma reachable_run:
  assumes "session c" "render_error (page c) = None"
  shows "reachable (app (processQueue finder (app (page c))))"
proof (cases "isProcessing (app (page c))")
  case True
  with assms(1) show ?thesis by (auto simp: reachable_def processQueue_def)
next
  case False
  from session_processQueue [OF assms False, of finder] show ?thesis
    by (auto simp: reachable_def)
qed

lemma reachable_three_idle: "reachable three_idle"
  using session_pasted_first [of "[''a.com'', ''b.com'', ''c.com'']"]
  by (auto simp: reachable_def three_idle_def)

lemma reachable_after_lookups: "reachable after_lookups"
proof -
  obtain c where "session c" "app (page c) = two_sites" "render_error (page c) = None"
    using session_pasted_first [of "[''a.com'', ''b.com'']"] by (auto simp: two_sites_def)
  from reachable_run [OF this(1,3), of one_of_each] this(2) show ?thesis
    by (simp add: after_lookups_def)
qed

text \<open>
  \<open>addUrls\<close> and the state of its render: it creates a record only for a url whose
  normalized form is neither in the list nor in the history (nor a property that the history
  object inherits) of that state; every url of the batch either creates a record or raises
  one of the two counters; the history counter counts the urls that are not in the list and
  are in the history, the duplicate counter at least those that are in the list; the new
  records have pairwise different normalized urls. So a list without two records of one
  normalized url keeps that when \<open>addUrls\<close> is called with the state of the page. Normalized
  is what \<open>normalizeUrl\<close> returns. The history has one entry for each of its keys in every
  reachable state.
\<close>

lemma addUrls_of_its_render:
  "(\<forall>e \<in> set (newEntries (addUrls_loop uuidv4 render urls)).
       normalizeUrl (url e) \<notin> normalized_urls (websites render)
       \<and> \<not> in_history (history render) (normalizeUrl (url e)))
   \<and> normalized_urls (newEntries (addUrls_loop uuidv4 render urls))
       = normalizeUrl ` set urls - normalized_urls (websites render)
           - {k. in_history (history render) k}
   \<and> distinct (map (\<lambda>w. normalizeUrl (url w)) (newEntries (addUrls_loop uuidv4 render urls)))
   \<and> length (newEntries (addUrls_loop uuidv4 render urls))
       + skippedHistoryCount (addUrls_loop uuidv4 render urls)
       + skippedDuplicateCount (addUrls_loop uuidv4 render urls) = length urls
   \<and> skippedHistoryCount (addUrls_loop uuidv4 render urls)
       = length (filter (\<lambda>u. normalizeUrl u \<notin> normalized_urls (websites render)
                             \<and> in_history (history render) (normalizeUrl u)) urls)
   \<and> length (filter (\<lambda>u. normalizeUrl u \<in> normalized_urls (websites render)) urls)
       \<le> skippedDuplicateCount (addUrls_loop uuidv4 render urls)"
proof -
  have ok: "scan_ok uuidv4 (history render) (normalized_urls (websites render)) urls
              (addUrls_loop uuidv4 render urls)"
    by (rule scan_ok_loop)
  have "normalizeUrl (url e) \<notin> normalized_urls (websites render)
            \<and> \<not> in_history (history render) (normalizeUrl (url e))"
    if "e \<in> set (newEntries (addUrls_loop uuidv4 render urls))" for e
  proof -
    have "normalizeUrl (url e) \<in> normalized_urls (newEntries (addUrls_loop uuidv4 render urls))"
      using that by (auto simp: normalized_urls_def)
    then show ?thesis
      using ok by (auto simp: scan_ok_def)
  qed
  with ok show ?thesis
    by (simp add: scan_ok_def)
qed

lemma addUrls_on_the_page:
  assumes "distinct (map (\<lambda>w. normalizeUrl (url w)) (websites s))"
  shows "distinct (map (\<lambda>w. normalizeUrl (url w)) (websites (addUrls uuidv4 urls s s)))"
  using assms scan_ok_loop [of uuidv4 s urls]
  by (auto simp: scan_ok_def normalized_urls_def)

lemma history_keys_once: "reachable s \<Longrightarrow> distinct (map fst (history s))"
  using reachable_invariant by (auto simp: invariant_def)

lemma pasted_eq:
  "pasted =
     \<lparr>websites =
        [\<lparr>id' = 0, url = ''a.com'', status = IDLE, emails = [], error = None, sourceUrl = None\<rparr>],
      isProcessing = False, targetAudience = [], history = [], notification = None\<rparr>"
  by code_simp

lemma stale_list_eq:
  "stale_list =
     \<lparr>websites =
        [\<lparr>id' = 0, url = ''a.com'', status = IDLE, emails = [], error = None, sourceUrl = None\<rparr>,
         \<lparr>id' = 1, url = ''http://a.com/'', status = IDLE, emails = [], error = None,
           sourceUrl = None\<rparr>],
      isProcessing = False, targetAudience = [], history = [], notification = None\<rparr>"
  by code_simp

lemma session_stale_list:
  "\<exists>c. session c \<and> app (page c) = stale_list \<and> render_error (page c) = None"
proof -
  let ?c1 = "first_page\<lparr>reading := [initial None]\<rparr>"
  have s1: "session ?c1"
    using session.give_file [OF session_first_page] by (simp add: first_page_def)
  have "fresh_ids (\<lambda>n. n) (app (page ?c1))"
    by (simp add: fresh_ids_def first_page_def initial_def)
  from session_paste [OF s1 _ this, of "[''a.com'']"]
  obtain c2 where s2: "session c2" and a2: "app (page c2) = pasted"
    and m2: "render_error (page c2) = None" and r2: "reading c2 = [initial None]"
    by (auto simp: first_page_def pasted_def)
  have "fresh_ids Suc (app (page c2))"
    by (simp add: a2 pasted_eq fresh_ids_def)
  from session.file_read [OF s2 _ this, of "initial None" "[''http://a.com/'']"] r2
  have "session (c2\<lparr>page := set_state (addUrls Suc [''http://a.com/''] (initial None)) (page c2),
                   reading := []\<rparr>)"
    by simp
  then show ?thesis
    using a2 m2
    by (intro exI [of _ "c2\<lparr>page := set_state (addUrls Suc [''http://a.com/''] (initial None)) (page c2),
                   reading := []\<rparr>"])
       (simp add: set_state_def stale_list_def)
qed

text \<open>
  C3. The property fails for a file. \<open>handleDrop\<close> and \<open>handleFileChange\<close> call, after
  \<open>await parseFile\<close>, the \<open>addUrls\<close> of the render in which the file was given, and that
  \<open>addUrls\<close> looks for duplicates in the list of its own render (its comment says: of
  currently normalized URLs) while it appends to the list of the page. Here a file that holds
  http://a.com/ is given to the first page, a.com is pasted while the file is read, and then
  the file's url is added: its normalized form is in the list, yet no counter is raised for
  it, a record is created, and the list holds two records with the normalized url a.com.
\<close>

theorem addUrls_stale_render_duplicates:
  "reachable stale_list
   \<and> map url (websites pasted) = [''a.com'']
   \<and> normalizeUrl ''http://a.com/'' = normalizeUrl ''a.com''
   \<and> skippedDuplicateCount (addUrls_loop Suc (initial None :: string AppState) [''http://a.com/'']) = 0
   \<and> skippedHistoryCount (addUrls_loop Suc (initial None :: string AppState) [''http://a.com/'']) = 0
   \<and> map url (websites stale_list) = [''a.com'', ''http://a.com/'']
   \<and> normalizeUrl (url (websites stale_list ! 0)) = ''a.com''
   \<and> normalizeUrl (url (websites stale_list ! 1)) = ''a.com''"
proof -
  have "reachable stale_list"
    using session_stale_list by (auto simp: reachable_def)
  moreover have "normalizeUrl ''http://a.com/'' = normalizeUrl ''a.com''"
    and "skippedDuplicateCount (addUrls_loop Suc (initial None :: string AppState) [''http://a.com/'']) = 0"
    and "skippedHistoryCount (addUrls_loop Suc (initial None :: string AppState) [''http://a.com/'']) = 0"
    and "normalizeUrl ''a.com'' = ''a.com''" and "normalizeUrl ''http://a.com/'' = ''a.com''"
    by code_simp+
  ultimately show ?thesis
    by (simp add: stale_list_eq pasted_eq)
qed

text \<open>
  The same for pasted text and a scheme with a capital letter, which the pattern of
  \<open>parseText\<close> accepts and \<open>normalizeUrl\<close> does not remove: both spellings of one site
  become records.
\<close>

lemma addUrls_uppercase_scheme:
  "parseText ''a.co,Http://a.co'' = [''a.co'', ''Http://a.co'']
   \<and> map url (websites (addUrls (\<lambda>n. n) [''a.co'', ''Http://a.co''] (initial None)
                          (initial None :: string AppState)))
       = [''a.co'', ''Http://a.co'']
   \<and> spec_normalizeUrl ''a.co'' = ''a.co''
   \<and> spec_normalizeUrl ''Http://a.co'' = ''a.co''"
  by code_simp

text \<open>
  C9. No operation assigns PENDING: in every reachable state every record is IDLE, PROCESSING,
  COMPLETED or FAILED.
\<close>

theorem status_never_PENDING:
  assumes "reachable s"
  shows "\<forall>w \<in> set (websites s). status w \<in> {IDLE, PROCESSING, COMPLETED, FAILED}"
proof
  fix w assume "w \<in> set (websites s)"
  with reachable_invariant [OF assms] have "status w \<noteq> PENDING"
    by (simp add: invariant_def good_record_def)
  then show "status w \<in> {IDLE, PROCESSING, COMPLETED, FAILED}"
    by (cases "status w") simp_all
qed

theorem status_never_PENDING_witness:
  "reachable (app (processQueue limited_on_second three_idle))
   \<and> websites (app (processQueue limited_on_second three_idle)) \<noteq> []
   \<and> status (hd (websites (app (processQueue limited_on_second three_idle))))
       \<in> {IDLE, PROCESSING, COMPLETED, FAILED}"
proof -
  obtain c where "session c" "app (page c) = three_idle" "render_error (page c) = None"
    using session_pasted_first [of "[''a.com'', ''b.com'', ''c.com'']"]
    by (auto simp: three_idle_def)
  from reachable_run [OF this(1,3), of limited_on_second] this(2)
  have r: "reachable (app (processQueue limited_on_second three_idle))"
    by simp
  have ne: "websites (app (processQueue limited_on_second three_idle)) \<noteq> []"
    unfolding three_idle_eq by code_simp
  from status_never_PENDING [OF r] ne
  have "status (hd (websites (app (processQueue limited_on_second three_idle))))
       \<in> {IDLE, PROCESSING, COMPLETED, FAILED}"
    using hd_in_set by blast
  with r ne show ?thesis by simp
qed

section \<open>saveAndClear: what a save writes\<close>

lemma save_each_saved:
  "status w = COMPLETED \<or> status w = FAILED \<Longrightarrow>
     save_each (h, n) w = (obj_set h (normalizeUrl (url w)) (emails w), n + 1)"
  "\<not> (status w = COMPLETED \<or> status w = FAILED) \<Longrightarrow> save_each (h, n) w = (h, n)"
  by (simp_all add: save_each_def)

lemma map_of_obj_set_other:
  "k \<noteq> ''__proto__'' \<Longrightarrow> map_of (obj_set h key v) k = (if key = k then Some v else map_of h k)"
  by (auto simp: obj_set_def map_of_obj_define)

lemma last_saved_snoc:
  "last_saved k (ws @ [w]) =
     (if (status w = COMPLETED \<or> status w = FAILED) \<and> normalizeUrl (url w) = k then Some w
      else last_saved k ws)"
  by (simp add: last_saved_def saved_sites_def)

lemma foldl_save_each_lookup:
  assumes "k \<noteq> ''__proto__''"
  shows "map_of (fst (foldl save_each (h, n) ws)) k =
           (case last_saved k ws of Some w \<Rightarrow> Some (emails w) | None \<Rightarrow> map_of h k)"
proof (induction ws rule: rev_induct)
  case Nil
  then show ?case by (simp add: last_saved_def saved_sites_def)
next
  case (snoc w ws)
  obtain h' n' where f: "foldl save_each (h, n) ws = (h', n')"
    by (cases "foldl save_each (h, n) ws")
  with snoc have IH: "map_of h' k =
      (case last_saved k ws of Some w \<Rightarrow> Some (emails w) | None \<Rightarrow> map_of h k)"
    by simp
  show ?case
  proof (cases "status w = COMPLETED \<or> status w = FAILED")
    case True
    with IH show ?thesis
      by (simp add: f save_each_saved(1) last_saved_snoc map_of_obj_set_other [OF assms])
  next
    case False
    with IH show ?thesis
      by (simp add: f save_each_saved(2) last_saved_snoc)
  qed
qed

lemma foldl_save_each_count:
  "snd (foldl save_each (h, n) ws) = n + length (saved_sites ws)"
proof (induction ws arbitrary: h n)
  case Nil
  then show ?case by (simp add: saved_sites_def)
next
  case (Cons w ws)
  then show ?case
    by (cases "status w = COMPLETED \<or> status w = FAILED")
       (simp_all add: save_each_saved saved_sites_def)
qed

lemma after_lookups_eq:
  "after_lookups =
     \<lparr>websites =
        [\<lparr>id' = 0, url = ''a.com'', status = COMPLETED, emails = [''a@a.com''], error = None,
          sourceUrl = None\<rparr>,
         \<lparr>id' = 1, url = ''b.com'', status = FAILED, emails = [], error = Some ''fetch failed'',
          sourceUrl = None\<rparr>],
      isProcessing = False, targetAudience = [], history = [], notification = None\<rparr>"
  by code_simp

lemma stale_done_eq:
  "stale_done =
     \<lparr>websites =
        [\<lparr>id' = 0, url = ''a.com'', status = COMPLETED, emails = [''a@a.com''], error = None,
          sourceUrl = None\<rparr>,
         \<lparr>id' = 1, url = ''http://a.com/'', status = FAILED, emails = [],
          error = Some ''fetch failed'', sourceUrl = None\<rparr>],
      isProcessing = False, targetAudience = [], history = [], notification = None\<rparr>"
  by code_simp

lemma reachable_stale_done: "reachable stale_done"
proof -
  obtain c where "session c" "app (page c) = stale_list" "render_error (page c) = None"
    using session_stale_list by blast
  from reachable_run [OF this(1,3), of one_of_each] this(2) show ?thesis
    by (simp add: stale_done_def)
qed

text \<open>
  C5, as stated, fails for a list that holds two records with one normalized url, which the
  page reaches when a file is read while urls are pasted: the save writes both under one key
  and the later record's emails replace the earlier one's. Here the address found for a.com
  is lost to the empty list of the failed http://a.com/.
\<close>

theorem saveAndClear_overwrites_counterexample:
  "reachable stale_done
   \<and> status (websites stale_done ! 0) = COMPLETED
   \<and> emails (websites stale_done ! 0) = [''a@a.com'']
   \<and> normalizeUrl (url (websites stale_done ! 0)) = ''a.com''
   \<and> status (websites stale_done ! 1) = FAILED
   \<and> normalizeUrl (url (websites stale_done ! 1)) = ''a.com''
   \<and> saveAndClear True stale_done =
       Inr \<lparr>websites = [], isProcessing = False, targetAudience = [],
            history = [(''a.com'', [])],
            notification = Some ''Saved 2 websites to history and cleared the list.''\<rparr>"
proof -
  have "normalizeUrl ''a.com'' = ''a.com''" and "normalizeUrl ''http://a.com/'' = ''a.com''"
    by code_simp+
  moreover have "saveAndClear True stale_done =
       Inr \<lparr>websites = [], isProcessing = False, targetAudience = [],
            history = [(''a.com'', [])],
            notification = Some ''Saved 2 websites to history and cleared the list.''\<rparr>"
    unfolding stale_done_eq by code_simp
  ultimately show ?thesis
    using reachable_stale_done by (simp add: stale_done_eq)
qed

text \<open>
  C5, amended. For every record list, a save whose write local storage accepts returns and
  empties the list. In the history it leaves, every key other than \<open>__proto__\<close> that is the
  normalized url of a COMPLETED or FAILED record maps to the emails of the last such record
  of the list, and every other key keeps what it had, so that records in other statuses add
  nothing. The key of a record is what \<open>normalizeUrl\<close> gives for its url, which for a url
  whose scheme is in lowercase is the url in lowercase without its scheme and its final
  slash. In a reachable state the emails of a FAILED record are the empty list, and no key is
  \<open>__proto__\<close>. The message counts the records saved; the rest of the state is kept.
\<close>

theorem saveAndClear_amended:
  "\<exists>s'. saveAndClear True s = Inr s'
     \<and> websites s' = []
     \<and> (\<forall>k. k \<noteq> ''__proto__'' \<longrightarrow>
           map_of (history s') k =
             (case last_saved k (websites s) of
                Some w \<Rightarrow> Some (emails w)
              | None \<Rightarrow> map_of (history s) k))
     \<and> (\<forall>w \<in> set (websites s). scheme_in_lowercase (url w) \<longrightarrow>
           normalizeUrl (url w) = spec_normalizeUrl (url w))
     \<and> (reachable s \<longrightarrow>
           (\<forall>w \<in> set (websites s). (status w = FAILED \<longrightarrow> emails w = [])
                                     \<and> normalizeUrl (url w) \<noteq> ''__proto__''))
     \<and> (websites s \<noteq> [] \<longrightarrow>
           notification s' = Some (''Saved '' @ decimal (length (saved_sites (websites s)))
                                   @ '' websites to history and cleared the list.''))
     \<and> isProcessing s' = isProcessing s
     \<and> targetAudience s' = targetAudience s"
proof -
  have low: "\<forall>w \<in> set (websites s). scheme_in_lowercase (url w) \<longrightarrow>
           normalizeUrl (url w) = spec_normalizeUrl (url w)"
    by (simp add: normalizeUrl_lowercase_scheme)
  have r: "reachable s \<longrightarrow>
           (\<forall>w \<in> set (websites s). (status w = FAILED \<longrightarrow> emails w = [])
                                     \<and> normalizeUrl (url w) \<noteq> ''__proto__'')"
  proof (intro impI ballI)
    fix w assume "reachable s" "w \<in> set (websites s)"
    then have "good_record w"
      using reachable_invariant by (auto simp: invariant_def)
    then show "(status w = FAILED \<longrightarrow> emails w = []) \<and> normalizeUrl (url w) \<noteq> ''__proto__''"
      by (auto simp: good_record_def object_prototype_names_def)
  qed
  show ?thesis
  proof (cases "websites s = []")
    case True
    then have "saveAndClear True s = Inr s" by (simp add: saveAndClear_def)
    with True low r show ?thesis
      by (intro exI [of _ s]) (simp add: last_saved_def saved_sites_def)
  next
    case False
    obtain nh n where f: "foldl save_each (history s, 0) (websites s) = (nh, n)"
      by (cases "foldl save_each (history s, 0) (websites s)")
    define s' where "s' = s\<lparr>history := nh, websites := [],
                      notification := Some (''Saved '' @ decimal n
                                            @ '' websites to history and cleared the list.'')\<rparr>"
    have eq: "saveAndClear True s = Inr s'"
      using False by (simp add: saveAndClear_def f s'_def)
    have look: "map_of nh k =
             (case last_saved k (websites s) of
                Some w \<Rightarrow> Some (emails w) | None \<Rightarrow> map_of (history s) k)"
      if "k \<noteq> ''__proto__''" for k
      using foldl_save_each_lookup [OF that, of "history s" 0 "websites s"] by (simp add: f)
    have n: "n = length (saved_sites (websites s))"
      using foldl_save_each_count [of "history s" 0 "websites s"] by (simp add: f)
    show ?thesis
      using eq look n low r by (intro exI [of _ s']) (simp add: s'_def)
  qed
qed

lemma three_spellings_eq:
  "three_spellings =
     \<lparr>websites =
        [\<lparr>id' = 0, url = ''https://A.com/'', status = COMPLETED, emails = [''a@a.com''],
          error = None, sourceUrl = None\<rparr>,
         \<lparr>id' = 1, url = ''http://b.com'', status = FAILED, emails = [],
          error = Some ''fetch failed'', sourceUrl = None\<rparr>,
         \<lparr>id' = 2, url = ''C.com/'', status = IDLE, emails = [], error = None,
          sourceUrl = None\<rparr>],
      isProcessing = False, targetAudience = [], history = [],
      notification = Some rate_limit_notice\<rparr>"
  by code_simp

theorem saveAndClear_amended_witness:
  "map (\<lambda>w. (url w, status w, emails w)) (websites three_spellings)
       = [(''https://A.com/'', COMPLETED, [''a@a.com'']), (''http://b.com'', FAILED, []),
          (''C.com/'', IDLE, [])]
   \<and> saveAndClear True three_spellings =
       Inr \<lparr>websites = [], isProcessing = False, targetAudience = [],
            history = [(''a.com'', [''a@a.com'']), (''b.com'', [])],
            notification = Some ''Saved 2 websites to history and cleared the list.''\<rparr>
   \<and> map_of [(''a.com'', [''a@a.com'']), (''b.com'', [])] ''a.com'' = Some [''a@a.com'']
   \<and> map_of [(''a.com'', [''a@a.com'']), (''b.com'', [])] ''b.com'' = Some []
   \<and> map_of [(''a.com'', [''a@a.com'']), (''b.com'', [])] ''c.com'' = (None :: string list option)
   \<and> spec_normalizeUrl ''https://A.com/'' = ''a.com''"
proof -
  let ?after = "\<lparr>websites = [], isProcessing = False, targetAudience = [],
            history = [(''a.com'', [''a@a.com'']), (''b.com'', [])],
            notification = Some ''Saved 2 websites to history and cleared the list.''\<rparr>"
  have ws: "map (\<lambda>w. (url w, status w, emails w)) (websites three_spellings)
       = [(''https://A.com/'', COMPLETED, [''a@a.com'']), (''http://b.com'', FAILED, []),
          (''C.com/'', IDLE, [])]"
    by (simp add: three_spellings_eq)
  have sv: "saveAndClear True three_spellings = Inr ?after"
    unfolding three_spellings_eq by code_simp
  obtain s' where s': "saveAndClear True three_spellings = Inr s'"
    and look: "\<forall>k. k \<noteq> ''__proto__'' \<longrightarrow>
           map_of (history s') k =
             (case last_saved k (websites three_spellings) of
                Some w \<Rightarrow> Some (emails w)
              | None \<Rightarrow> map_of (history three_spellings) k)"
    and low: "\<forall>w \<in> set (websites three_spellings). scheme_in_lowercase (url w) \<longrightarrow>
           normalizeUrl (url w) = spec_normalizeUrl (url w)"
    using saveAndClear_amended [of three_spellings] by blast
  have "s' = ?after"
    using s' sv by simp
  then have h: "history s' = [(''a.com'', [''a@a.com'']), (''b.com'', [])]"
    by simp
  have la: "last_saved ''a.com'' (websites three_spellings) = Some (websites three_spellings ! 0)"
    and lb: "last_saved ''b.com'' (websites three_spellings) = Some (websites three_spellings ! 1)"
    and lc: "last_saved ''c.com'' (websites three_spellings) = None"
    unfolding three_spellings_eq by code_simp+
  have a: "map_of [(''a.com'', [''a@a.com'']), (''b.com'', [])] ''a.com'' = Some [''a@a.com'']"
    using look [rule_format, of "''a.com''"] by (simp add: h la three_spellings_eq)
  have b: "map_of [(''a.com'', [''a@a.com'']), (''b.com'', [])] ''b.com'' = Some []"
    using look [rule_format, of "''b.com''"] by (simp add: h lb three_spellings_eq)
  have c: "map_of [(''a.com'', [''a@a.com'']), (''b.com'', [])] ''c.com'' = (None :: string list option)"
    using look [rule_format, of "''c.com''"] by (simp add: h lc three_spellings_eq)
  have sl: "scheme_in_lowercase ''https://A.com/''" and n: "normalizeUrl ''https://A.com/'' = ''a.com''"
    by code_simp+
  have "spec_normalizeUrl ''https://A.com/'' = ''a.com''"
    using low sl n by (simp add: three_spellings_eq)
  with ws sv a b c show ?thesis by blast
qed

text \<open>The example of the specification.\<close>

lemma saveAndClear_example:
  "map (\<lambda>w. (url w, status w, emails w)) (websites after_lookups)
       = [(''a.com'', COMPLETED, [''a@a.com'']), (''b.com'', FAILED, [])]
   \<and> saveAndClear True after_lookups = Inr after_save
   \<and> websites after_save = []
   \<and> map_of (history after_save) ''a.com'' = Some [''a@a.com'']
   \<and> map_of (history after_save) ''b.com'' = Some []"
  unfolding after_lookups_eq after_save_def by code_simp

section \<open>findEmailsForUrl: what the finder returns\<close>

lemma filter_emails_Some:
  assumes "filter_emails xs = Some kept"
  shows "kept = filter matching_entry xs" and "\<forall>e \<in> set xs. to_string e \<noteq> None"
  using assms
  by (induction xs arbitrary: kept)
     (auto simp: matching_entry_def split: option.splits if_splits)

lemma filter_emails_None:
  "filter_emails xs = None \<longleftrightarrow> (\<exists>e \<in> set xs. to_string e = None)"
  by (induction xs) (auto split: option.splits)

lemma read_emails_cases:
  "read_emails json_parse text = [] \<or>
   (\<exists>members entries. json_parse text = Some (JObj members)
       \<and> map_of members ''emails'' = Some (JArr entries)
       \<and> (\<forall>e \<in> set entries. to_string e \<noteq> None)
       \<and> read_emails json_parse text = filter matching_entry entries)"
proof (cases "read_emails json_parse text = []")
  case True
  then show ?thesis by simp
next
  case False
  then obtain parsed where p: "json_parse text = Some parsed"
    by (auto simp: read_emails_def split: option.splits)
  with False obtain entries where e: "get_property parsed ''emails'' = Some (JArr entries)"
    by (auto simp: read_emails_def split: option.splits json.splits if_splits)
  then obtain members where m: "parsed = JObj members" "map_of members ''emails'' = Some (JArr entries)"
    by (auto simp: get_property_def split: json.splits)
  from False p e obtain kept where k: "filter_emails entries = Some kept"
    "read_emails json_parse text = kept"
    by (auto simp: read_emails_def split: option.splits if_splits)
  from filter_emails_Some [OF k(1)] p m k(2) show ?thesis by auto
qed

lemma read_emails_matching: "\<forall>e \<in> set (read_emails json_parse text). matching_entry e"
  using read_emails_cases [of json_parse "text"] by auto

lemma read_emails_strings:
  "JStr s \<in> set (read_emails json_parse text) \<Longrightarrow> found_in emailRegex s"
  using read_emails_matching [of json_parse "text"] by (auto simp: matching_entry_def)

lemma findEmailsForUrl_cases:
  "findEmailsForUrl env json_parse u aud =
     (case getClient env of
        Inl err \<Rightarrow> Inl err
      | Inr ai \<Rightarrow>
          (case generateContent env (instructions u aud) of
             Inl err \<Rightarrow> Inl err
           | Inr None \<Rightarrow> Inr (read_emails json_parse [])
           | Inr (Some text) \<Rightarrow>
               Inr (read_emails json_parse (trim (remove_all ''```'' (remove_all ''```json'' text))))))"
  by (simp add: findEmailsForUrl_def Let_def trim_def split: sum.splits option.splits)

text \<open>
  What the function returns: the error of a missing key, of the client's construction or of
  the request; otherwise a list, which is empty when the cleaned text does not parse, when
  the parsed value has no array under \<open>emails\<close>, or when an entry cannot be converted to a
  string, and which else holds the entries of that array whose string form contains an
  email-shaped part, in their order.
\<close>

lemma findEmailsForUrl_results:
  fixes response :: "string option"
  defines "cleanText \<equiv> trim (remove_all ''```'' (remove_all ''```json''
                          (case response of None \<Rightarrow> [] | Some t \<Rightarrow> t)))"
  shows
   "(getClient env = Inl err \<longrightarrow> findEmailsForUrl env json_parse u aud = Inl err)
  \<and> (getClient env = Inr () \<and> generateContent env (instructions u aud) = Inl err \<longrightarrow>
       findEmailsForUrl env json_parse u aud = Inl err)
  \<and> (getClient env = Inr () \<and> generateContent env (instructions u aud) = Inr response \<longrightarrow>
       (\<exists>found_emails. findEmailsForUrl env json_parse u aud = Inr found_emails
          \<and> (\<forall>e \<in> set found_emails. matching_entry e)
          \<and> (\<forall>s. JStr s \<in> set found_emails \<longrightarrow> found_in emailRegex s)
          \<and> (json_parse cleanText = None \<longrightarrow> found_emails = [])
          \<and> (\<forall>parsed. json_parse cleanText = Some parsed
                 \<and> (\<forall>entries. get_property parsed ''emails'' \<noteq> Some (JArr entries))
                 \<longrightarrow> found_emails = [])
          \<and> (\<forall>parsed entries. json_parse cleanText = Some parsed
                 \<and> get_property parsed ''emails'' = Some (JArr entries)
                 \<longrightarrow> found_emails = (if \<forall>e \<in> set entries. to_string e \<noteq> None
                                     then filter matching_entry entries else []))))"
proof (intro conjI impI)
  assume "getClient env = Inl err"
  then show "findEmailsForUrl env json_parse u aud = Inl err"
    by (simp add: findEmailsForUrl_cases)
next
  assume "getClient env = Inr () \<and> generateContent env (instructions u aud) = Inl err"
  then show "findEmailsForUrl env json_parse u aud = Inl err"
    by (simp add: findEmailsForUrl_cases)
next
  assume a: "getClient env = Inr () \<and> generateContent env (instructions u aud) = Inr response"
  have res: "findEmailsForUrl env json_parse u aud = Inr (read_emails json_parse cleanText)"
    using a by (cases response) (simp_all add: findEmailsForUrl_cases cleanText_def trim_def)
  have m: "\<forall>e \<in> set (read_emails json_parse cleanText). matching_entry e"
    by (rule read_emails_matching)
  have st: "\<forall>s. JStr s \<in> set (read_emails json_parse cleanText) \<longrightarrow> found_in emailRegex s"
    using read_emails_strings by blast
  have n: "json_parse cleanText = None \<longrightarrow> read_emails json_parse cleanText = []"
    by (simp add: read_emails_def)
  have na: "\<forall>parsed. json_parse cleanText = Some parsed
                 \<and> (\<forall>entries. get_property parsed ''emails'' \<noteq> Some (JArr entries))
                 \<longrightarrow> read_emails json_parse cleanText = []"
    by (auto simp: read_emails_def split: option.splits json.splits)
  have arr: "\<forall>parsed entries. json_parse cleanText = Some parsed
                 \<and> get_property parsed ''emails'' = Some (JArr entries)
                 \<longrightarrow> read_emails json_parse cleanText
                     = (if \<forall>e \<in> set entries. to_string e \<noteq> None
                        then filter matching_entry entries else [])"
  proof (intro allI impI)
    fix parsed entries
    assume p: "json_parse cleanText = Some parsed \<and> get_property parsed ''emails'' = Some (JArr entries)"
    then have t: "truthy parsed"
      by (auto simp: get_property_def truthy_def split: json.splits)
    show "read_emails json_parse cleanText
            = (if \<forall>e \<in> set entries. to_string e \<noteq> None then filter matching_entry entries else [])"
    proof (cases "filter_emails entries")
      case None
      with p t show ?thesis
        using filter_emails_None [of entries] by (auto simp: read_emails_def)
    next
      case (Some kept)
      with p t filter_emails_Some [OF Some] show ?thesis
        by (auto simp: read_emails_def)
    qed
  qed
  show "\<exists>found_emails. findEmailsForUrl env json_parse u aud = Inr found_emails
          \<and> (\<forall>e \<in> set found_emails. matching_entry e)
          \<and> (\<forall>s. JStr s \<in> set found_emails \<longrightarrow> found_in emailRegex s)
          \<and> (json_parse cleanText = None \<longrightarrow> found_emails = [])
          \<and> (\<forall>parsed. json_parse cleanText = Some parsed
                 \<and> (\<forall>entries. get_property parsed ''emails'' \<noteq> Some (JArr entries))
                 \<longrightarrow> found_emails = [])
          \<and> (\<forall>parsed entries. json_parse cleanText = Some parsed
                 \<and> get_property parsed ''emails'' = Some (JArr entries)
                 \<longrightarrow> found_emails = (if \<forall>e \<in> set entries. to_string e \<noteq> None
                                     then filter matching_entry entries else []))"
    by (rule exI [of _ "read_emails json_parse cleanText"])
       (use res m st n na arr in simp)
qed

lemma findEmailsForUrl_example:
  \<open>findEmailsForUrl (answering ''{"emails": ["sales@shop.example", "n/a"]}'')
        (\<lambda>text. if text = ''{"emails": ["sales@shop.example", "n/a"]}''
                then Some (JObj [(''emails'', JArr [JStr ''sales@shop.example'', JStr ''n/a''])])
                else None)
        ''shop.example'' None
      = Inr [JStr ''sales@shop.example'']\<close>
  by code_simp

text \<open>
  C6. The first part of the property fails. The function is declared to return
  \<open>Promise<string[]>\<close>, its filter is annotated \<open>(e: string)\<close> and commented as validating
  emails, and \<open>parseFile\<close> tests \<open>typeof cell === 'string'\<close> before it matches a cell; but
  here no entry is tested for being a string. \<open>emailRegex.test\<close> converts its argument to a
  string, so an entry that is an array of one address passes and is returned as it is: the
  result holds a value that is not a string.
\<close>

theorem findEmailsForUrl_returns_non_string:
  \<open>findEmailsForUrl (answering ''```json{"emails": [["a@b.co"], "none", "c@d.io"]}```'')
     nested_answer ''a.com'' None
   = Inr [JArr [JStr ''a@b.co''], JStr ''c@d.io'']\<close>
  by code_simp

section \<open>The URL extractor: what it keeps\<close>

lemma foldl_set_add_first:
  "foldl set_add seen xs = seen @ filter (\<lambda>y. y \<notin> set seen) (first_occurrences xs)"
proof (induction xs arbitrary: seen)
  case Nil
  then show ?case by simp
next
  case (Cons x xs)
  show ?case
  proof (cases "x \<in> set seen")
    case True
    then have "filter (\<lambda>y. y \<notin> set seen) (filter (\<lambda>y. y \<noteq> x) (first_occurrences xs))
             = filter (\<lambda>y. y \<notin> set seen) (first_occurrences xs)"
      by (auto intro!: filter_cong)
    with True Cons.IH [of seen] show ?thesis by simp
  next
    case False
    have "filter (\<lambda>y. y \<notin> set (seen @ [x])) (first_occurrences xs)
          = filter (\<lambda>y. y \<notin> set seen) (filter (\<lambda>y. y \<noteq> x) (first_occurrences xs))"
      by (auto intro!: filter_cong)
    with False Cons.IH [of "seen @ [x]"] show ?thesis by simp
  qed
qed

lemma array_from_set_first: "array_from_set xs = first_occurrences xs"
  using foldl_set_add_first [of "[]" xs] by (simp add: array_from_set_def)

lemma first_occurrences_set [simp]: "set (first_occurrences xs) = set xs"
  by (induction xs) auto

lemma first_occurrences_distinct [simp]: "distinct (first_occurrences xs)"
  by (induction xs) auto

lemma cell_strings_append [simp]: "cell_strings (xs @ ys) = cell_strings xs @ cell_strings ys"
  by (induction xs rule: cell_strings.induct) simp_all

lemma cell_strings_set: "s \<in> set (cell_strings cells) \<longleftrightarrow> StringCell s \<in> set cells"
  by (induction cells rule: cell_strings.induct) auto

lemma row_urls:
  "concat (map cell_urls row) = filter (matches urlRegex) (map trim (cell_strings row))"
  by (induction row rule: cell_strings.induct) (simp_all add: Let_def)

lemma rows_urls:
  "concat (map (\<lambda>row. concat (map cell_urls row)) rows)
     = filter (matches urlRegex) (map trim (cell_strings (concat rows)))"
  by (induction rows) (simp_all add: row_urls)

lemma parseText_set:
  "set (parseText t) =
     {u \<in> set (map trim (split_on is_split_char [] t)). u \<noteq> [] \<and> matches (ignore_case urlRegex) u}"
  by (auto simp: parseText_def Let_def)

text \<open>
  C7, as stated, fails in its first part: the extractor removes equal strings only. Two
  spellings of one site are both kept, although they have the same normalized form.
\<close>

theorem parseText_keeps_spellings_counterexample:
  "parseText ''a.com,http://a.com'' = [''a.com'', ''http://a.com'']
   \<and> normalizeUrl ''a.com'' = normalizeUrl ''http://a.com''"
  by code_simp

text \<open>
  C7, amended. For any input text, the output is the list of the pieces between runs of
  newlines, commas and semicolons, trimmed, that are not empty and match the
  hostname-plus-path pattern without regard to letter case; for any table, it is the list of
  the string cells of all rows, trimmed, that match the pattern as it is written, in
  lowercase. In both lists every string stands once, where it first occurs: no string is
  there twice, and every candidate is there. Entries that differ as strings and agree after
  normalization are all kept. A file that cannot be read, or that the spreadsheet library
  rejects, gives that error; a file without data gives no urls.
\<close>

theorem extractor_amended:
  "parseText t =
     first_occurrences (filter (\<lambda>u. u \<noteq> [] \<and> matches (ignore_case urlRegex) u)
                          (map trim (split_on is_split_char [] t)))
   \<and> distinct (parseText t)
   \<and> set (parseText t) =
       {u. u \<in> set (map trim (split_on is_split_char [] t)) \<and> u \<noteq> []
           \<and> matches (ignore_case urlRegex) u}
   \<and> parseFile (Rows jsonData :: 'err file_input) =
       Inr (first_occurrences (filter (matches urlRegex) (map trim (cell_strings (concat jsonData)))))
   \<and> distinct (first_occurrences (filter (matches urlRegex)
                                    (map trim (cell_strings (concat jsonData)))))
   \<and> set (first_occurrences (filter (matches urlRegex)
                               (map trim (cell_strings (concat jsonData)))))
       = {u. \<exists>s row. row \<in> set jsonData \<and> StringCell s \<in> set row \<and> u = trim s
                     \<and> matches urlRegex u}
   \<and> parseFile (ReadError err) = Inl err
   \<and> parseFile (LibraryError err) = Inl err
   \<and> parseFile (NoData :: 'err file_input) = Inr []"
proof -
  have t1: "parseText t =
     first_occurrences (filter (\<lambda>u. u \<noteq> [] \<and> matches (ignore_case urlRegex) u)
                          (map trim (split_on is_split_char [] t)))"
    by (simp add: parseText_def Let_def array_from_set_first)
  have t2: "set (parseText t) =
       {u. u \<in> set (map trim (split_on is_split_char [] t)) \<and> u \<noteq> []
           \<and> matches (ignore_case urlRegex) u}"
    using parseText_set [of t] by auto
  have f1: "parseFile (Rows jsonData :: 'err file_input) =
       Inr (first_occurrences (filter (matches urlRegex) (map trim (cell_strings (concat jsonData)))))"
    by (simp add: parseFile_def rows_urls array_from_set_first)
  have f2: "set (first_occurrences (filter (matches urlRegex)
                               (map trim (cell_strings (concat jsonData)))))
       = {u. \<exists>s row. row \<in> set jsonData \<and> StringCell s \<in> set row \<and> u = trim s
                     \<and> matches urlRegex u}"
  proof -
    have "set (cell_strings (concat jsonData))
            = {s. \<exists>row. row \<in> set jsonData \<and> StringCell s \<in> set row}"
      by (auto simp: cell_strings_set)
    then show ?thesis by auto
  qed
  show ?thesis
    using t1 t2 f1 f2 by (simp add: parseFile_def)
qed

theorem extractor_amended_witness:
  "parseText ''a.com, A.com/x ;nothing;a.com'' = [''a.com'', ''A.com/x'']
   \<and> first_occurrences (filter (\<lambda>u. u \<noteq> [] \<and> matches (ignore_case urlRegex) u)
        (map trim (split_on is_split_char [] ''a.com, A.com/x ;nothing;a.com'')))
       = [''a.com'', ''A.com/x'']
   \<and> parseFile (Rows [[StringCell '' a.com '', OtherCell, StringCell ''b.org/x''],
                       [StringCell ''A.com'', StringCell ''a.com'']] :: unit file_input)
       = Inr [''a.com'', ''b.org/x'']
   \<and> first_occurrences (filter (matches urlRegex)
        (map trim (cell_strings (concat [[StringCell '' a.com '', OtherCell, StringCell ''b.org/x''],
                                         [StringCell ''A.com'', StringCell ''a.com'']]))))
       = [''a.com'', ''b.org/x'']"
proof -
  have p: "parseText ''a.com, A.com/x ;nothing;a.com'' = [''a.com'', ''A.com/x'']"
    by code_simp
  have f: "parseFile (Rows [[StringCell '' a.com '', OtherCell, StringCell ''b.org/x''],
                       [StringCell ''A.com'', StringCell ''a.com'']] :: unit file_input)
       = Inr [''a.com'', ''b.org/x'']"
    by code_simp
  note main = extractor_amended [where t = "''a.com, A.com/x ;nothing;a.com''"
      and jsonData = "[[StringCell '' a.com '', OtherCell, StringCell ''b.org/x''],
                       [StringCell ''A.com'', StringCell ''a.com'']]"
      and 'err = unit]
  have p': "first_occurrences (filter (\<lambda>u. u \<noteq> [] \<and> matches (ignore_case urlRegex) u)
        (map trim (split_on is_split_char [] ''a.com, A.com/x ;nothing;a.com'')))
       = [''a.com'', ''A.com/x'']"
    by (rule trans [OF main [THEN conjunct1, symmetric] p])
  have f': "first_occurrences (filter (matches urlRegex)
        (map trim (cell_strings (concat [[StringCell '' a.com '', OtherCell, StringCell ''b.org/x''],
                                         [StringCell ''A.com'', StringCell ''a.com'']]))))
       = [''a.com'', ''b.org/x'']"
    using trans [OF main [THEN conjunct2, THEN conjunct2, THEN conjunct2, THEN conjunct1, symmetric] f]
    by (simp only: sum.inject)
  show ?thesis
    by (intro conjI) (rule p p' f f')+
qed

section \<open>stats: the numbers shown\<close>

lemma pow2_powi: "pow2 e = 2 powi e"
  by (simp add: pow2_def power_int_def field_simps)

lemma pow2_pos [simp]: "0 < pow2 e"
  by (simp add: pow2_powi)

lemma pow2_nonneg [simp]: "0 \<le> pow2 e"
  using pow2_pos [of e] by (rule less_imp_le)

lemma pow2_nonzero [simp]: "pow2 e \<noteq> 0"
  using pow2_pos [of e] by (rule less_imp_neq [symmetric])

lemma pow2_add: "pow2 (a + b) = pow2 a * pow2 b"
  by (simp add: pow2_powi power_int_add)

lemma pow2_split: "pow2 e = pow2 (e - k) * pow2 k"
  by (simp flip: pow2_add)

lemma pow2_mono: "a \<le> b \<Longrightarrow> pow2 a \<le> pow2 b"
  by (simp add: pow2_powi power_int_increasing)

lemma pow2_nat: "0 \<le> e \<Longrightarrow> pow2 e = 2 ^ nat e"
  by (simp add: pow2_def)

lemma binade_bounds:
  assumes "0 < x"
  shows "pow2 (binade x) \<le> x" and "x < pow2 (binade x + 1)"
proof -
  define a b where "a = fst (quotient_of x)" and "b = snd (quotient_of x)"
  have b: "0 < b" by (simp add: b_def quotient_of_denom_pos')
  have x: "x = of_int a / of_int b"
    by (simp add: a_def b_def quotient_of_div)
  have a: "0 < a"
    using assms b x by (simp add: zero_less_divide_iff)
  define k where "k = bitlen a - bitlen b"
  have la: "2 ^ nat (bitlen a - 1) \<le> a" "a < 2 ^ nat (bitlen a)"
    using bitlen_bounds [OF a] by auto
  have lb: "2 ^ nat (bitlen b - 1) \<le> b" "b < 2 ^ nat (bitlen b)"
    using bitlen_bounds [OF b] by auto
  have pa: "1 \<le> bitlen a" and pb: "1 \<le> bitlen b"
    using a b by (simp_all add: bitlen_alt_def)
  have cast: "pow2 (bitlen c - 1) \<le> of_int c \<and> of_int c < pow2 (bitlen c)"
    if "2 ^ nat (bitlen c - 1) \<le> c" "c < 2 ^ nat (bitlen c)" "1 \<le> bitlen c" for c :: int
  proof -
    have "(of_int (2 ^ nat (bitlen c - 1)) :: rat) \<le> of_int c"
      using that(1) by (simp only: of_int_le_iff)
    moreover have "(of_int c :: rat) < of_int (2 ^ nat (bitlen c))"
      using that(2) by (simp only: of_int_less_iff)
    ultimately show ?thesis
      using that(3) by (simp add: pow2_nat)
  qed
  have ra: "pow2 (bitlen a - 1) \<le> of_int a" "of_int a < pow2 (bitlen a)"
    using cast [OF la pa] by simp_all
  have rb: "pow2 (bitlen b - 1) \<le> of_int b" "of_int b < pow2 (bitlen b)"
    using cast [OF lb pb] by simp_all
  have up: "x < pow2 (k + 1)"
  proof -
    have "of_int a * pow2 (bitlen b - 1) < pow2 (bitlen a) * of_int b"
      using ra rb a b by (intro mult_less_le_imp_less) simp_all
    moreover have "pow2 (bitlen a) = pow2 (k + 1) * pow2 (bitlen b - 1)"
      by (simp add: k_def flip: pow2_add)
    ultimately have "of_int a < pow2 (k + 1) * of_int b"
      by (simp add: mult.assoc mult.left_commute [of _ "pow2 (bitlen b - 1)"])
    then show ?thesis using b by (simp add: x pos_divide_less_eq)
  qed
  have low: "pow2 (k - 1) < x"
  proof -
    have "pow2 (bitlen a - 1) * of_int b < of_int a * pow2 (bitlen b)"
      using ra rb a b by (intro mult_le_less_imp_less) simp_all
    moreover have "pow2 (bitlen a - 1) = pow2 (k - 1) * pow2 (bitlen b)"
      by (simp add: k_def flip: pow2_add)
    ultimately have "pow2 (k - 1) * of_int b < of_int a"
      by (simp add: mult.assoc mult.left_commute [of _ "pow2 (bitlen b)"] mult.commute [of "pow2 (bitlen b)"])
    then show ?thesis using b by (simp add: x pos_less_divide_eq)
  qed
  have e: "binade x = (if pow2 k \<le> x then k else k - 1)"
    by (simp add: binade_def Let_def k_def a_def b_def)
  show "pow2 (binade x) \<le> x"
    using low by (simp add: e)
  show "x < pow2 (binade x + 1)"
    using up by (simp add: e not_le)
qed

lemma round_ties_even_cases:
  "round_ties_even y = \<lfloor>y\<rfloor> \<and> y - of_int \<lfloor>y\<rfloor> \<le> 1 / 2
   \<or> round_ties_even y = \<lfloor>y\<rfloor> + 1 \<and> 1 / 2 \<le> y - of_int \<lfloor>y\<rfloor>"
  by (auto simp: round_ties_even_def Let_def)

lemma round_ties_even_error: "\<bar>of_int (round_ties_even y) - y\<bar> \<le> 1 / 2"
proof -
  have "of_int \<lfloor>y\<rfloor> \<le> y" "y < of_int \<lfloor>y\<rfloor> + 1" by linarith+
  with round_ties_even_cases [of y] show ?thesis by auto
qed

lemma round_ties_even_le: "y \<le> of_int n \<Longrightarrow> round_ties_even y \<le> n"
proof -
  assume a: "y \<le> of_int n"
  then have f: "\<lfloor>y\<rfloor> \<le> n" by (simp add: floor_le_iff)
  from round_ties_even_cases [of y] show ?thesis
  proof
    assume "round_ties_even y = \<lfloor>y\<rfloor> \<and> y - of_int \<lfloor>y\<rfloor> \<le> 1 / 2"
    with f show ?thesis by simp
  next
    assume b: "round_ties_even y = \<lfloor>y\<rfloor> + 1 \<and> 1 / 2 \<le> y - of_int \<lfloor>y\<rfloor>"
    then have "of_int \<lfloor>y\<rfloor> < y" by linarith
    with a have "(of_int \<lfloor>y\<rfloor> :: rat) < of_int n" by linarith
    then have "\<lfloor>y\<rfloor> < n" by (simp only: of_int_less_iff)
    with b show ?thesis by simp
  qed
qed

lemma round_ties_even_ge: "of_int n \<le> y \<Longrightarrow> n \<le> round_ties_even y"
proof -
  assume "of_int n \<le> y"
  then have "n \<le> \<lfloor>y\<rfloor>" by (simp add: le_floor_iff)
  with round_ties_even_cases [of y] show ?thesis by auto
qed

lemma fl64_eq:
  "x \<noteq> 0 \<Longrightarrow> fl64 x = of_int (round_ties_even (x / pow2 (binade \<bar>x\<bar> - 52))) * pow2 (binade \<bar>x\<bar> - 52)"
  by (simp add: fl64_def Let_def)

lemma fl64_error:
  assumes "0 < x"
  shows "\<bar>fl64 x - x\<bar> \<le> x / 2 ^ 53"
proof -
  define ulp where "ulp = pow2 (binade x - 52)"
  have u: "0 < ulp" by (simp add: ulp_def)
  have f: "fl64 x = of_int (round_ties_even (x / ulp)) * ulp"
    using assms by (simp add: fl64_eq ulp_def)
  have "fl64 x - x = (of_int (round_ties_even (x / ulp)) - x / ulp) * ulp"
    using u by (simp add: f algebra_simps)
  then have "\<bar>fl64 x - x\<bar> = \<bar>of_int (round_ties_even (x / ulp)) - x / ulp\<bar> * ulp"
    using u by (simp add: abs_mult)
  also have "\<dots> \<le> 1 / 2 * ulp"
    using u round_ties_even_error [of "x / ulp"] by (intro mult_right_mono) simp_all
  also have "1 / 2 * ulp = pow2 (binade x) / 2 ^ 53"
  proof -
    have "pow2 (binade x) = pow2 (binade x - 52) * pow2 52"
      by (rule pow2_split)
    then show ?thesis by (simp add: ulp_def pow2_nat)
  qed
  also have "\<dots> \<le> x / 2 ^ 53"
    using binade_bounds(1) [OF assms] by (simp add: divide_right_mono)
  finally show ?thesis .
qed

lemma fl64_nonneg: "0 \<le> x \<Longrightarrow> 0 \<le> fl64 x"
proof (cases "x = 0")
  case True
  then show ?thesis by (simp add: fl64_def)
next
  case False
  assume "0 \<le> x"
  with False have x: "0 < x" by simp
  have "(0::int) \<le> round_ties_even (x / pow2 (binade x - 52))"
    using x by (intro round_ties_even_ge) (simp add: zero_le_divide_iff less_imp_le)
  then have "0 \<le> of_int (round_ties_even (x / pow2 (binade x - 52))) * pow2 (binade x - 52)"
    by (intro mult_nonneg_nonneg) simp_all
  then show ?thesis
    using x by (simp add: fl64_eq)
qed

lemma binade_mono:
  assumes "0 < x" "x \<le> c"
  shows "binade x \<le> binade c"
proof (rule ccontr)
  assume "\<not> binade x \<le> binade c"
  then have "binade c + 1 \<le> binade x" by simp
  then have "pow2 (binade c + 1) \<le> pow2 (binade x)" by (rule pow2_mono)
  also have "\<dots> \<le> x" using assms(1) by (rule binade_bounds(1))
  finally have "pow2 (binade c + 1) \<le> c" using assms(2) by simp
  moreover have "c < pow2 (binade c + 1)"
    using assms by (intro binade_bounds(2)) simp
  ultimately show False by simp
qed

lemma fl64_le:
  assumes "0 < x" "x \<le> c" and rep: "c / pow2 (binade c - 52) = of_int m"
  shows "fl64 x \<le> c"
proof (cases "binade x = binade c")
  case True
  define ulp where "ulp = pow2 (binade c - 52)"
  have u: "0 < ulp" by (simp add: ulp_def)
  have "x / ulp \<le> of_int m"
    using assms u by (simp add: ulp_def [symmetric] divide_right_mono flip: rep)
  then have "round_ties_even (x / ulp) \<le> m" by (rule round_ties_even_le)
  then have "(of_int (round_ties_even (x / ulp)) :: rat) \<le> of_int m" by (simp only: of_int_le_iff)
  then have "of_int (round_ties_even (x / ulp)) * ulp \<le> of_int m * ulp"
    using u by (simp add: mult_right_mono)
  moreover have "of_int m * ulp = c"
    using u rep by (simp add: ulp_def [symmetric] flip: rep)
  moreover have "fl64 x = of_int (round_ties_even (x / ulp)) * ulp"
    using assms(1) True by (simp add: fl64_eq ulp_def)
  ultimately show ?thesis by simp
next
  case False
  with binade_mono [OF assms(1,2)] have lt: "binade x + 1 \<le> binade c" by simp
  define ulp where "ulp = pow2 (binade x - 52)"
  have u: "0 < ulp" by (simp add: ulp_def)
  have "x / ulp < pow2 (binade x + 1) / ulp"
    using binade_bounds(2) [OF assms(1)] u by (simp add: divide_strict_right_mono)
  also have "pow2 (binade x + 1) / ulp = 2 ^ 53"
  proof -
    have "pow2 (binade x + 1) = pow2 (binade x - 52) * pow2 53"
      using pow2_split [of "binade x + 1" 53] by simp
    then show ?thesis using u by (simp add: ulp_def pow2_nat)
  qed
  finally have "x / ulp \<le> of_int (2 ^ 53)" by simp
  then have "round_ties_even (x / ulp) \<le> 2 ^ 53" by (rule round_ties_even_le)
  then have "(of_int (round_ties_even (x / ulp)) :: rat) \<le> of_int (2 ^ 53)" by (simp only: of_int_le_iff)
  then have "of_int (round_ties_even (x / ulp)) * ulp \<le> 2 ^ 53 * ulp"
    using u by (simp add: mult_right_mono)
  also have "2 ^ 53 * ulp = pow2 (binade x + 1)"
  proof -
    have "pow2 (binade x + 1) = pow2 (binade x - 52) * pow2 53"
      using pow2_split [of "binade x + 1" 53] by simp
    then show ?thesis by (simp add: ulp_def pow2_nat)
  qed
  also have "\<dots> \<le> pow2 (binade c)" using lt by (rule pow2_mono)
  also have "\<dots> \<le> c"
    using assms by (intro binade_bounds(1)) simp
  finally show ?thesis
    using assms(1) by (simp add: fl64_eq ulp_def)
qed

lemma fl64_zero [simp]: "fl64 0 = 0"
  by (simp add: fl64_def)

lemma fl64_pos:
  assumes "0 < x"
  shows "0 < fl64 x"
proof -
  have "x / 2 ^ 53 < x" using assms by simp
  with fl64_error [OF assms] show ?thesis by linarith
qed

lemma percentage_error:
  fixes f p :: nat
  assumes p: "0 < p" and f: "f < 2 ^ 32"
  shows "\<bar>js_times (js_divide (of_nat f) (of_nat p)) 100 - 100 * of_nat f / of_nat p\<bar>
           < 1 / (2 * of_nat p)"
proof (cases "f = 0")
  case True
  with p show ?thesis by (simp add: js_times_def js_divide_def)
next
  case False
  define x :: rat where "x = of_nat f / of_nat p"
  define q where "q = fl64 x"
  define r where "r = fl64 (q * 100)"
  have x: "0 < x" using False p by (simp add: x_def)
  have eq: "\<bar>q - x\<bar> \<le> x / 2 ^ 53"
    unfolding q_def using x by (rule fl64_error)
  have q: "0 < q" unfolding q_def using x by (rule fl64_pos)
  then have y: "0 < q * 100" by simp
  have er: "\<bar>r - q * 100\<bar> \<le> q * 100 / 2 ^ 53"
    unfolding r_def using y by (rule fl64_error)
  have "x / 2 ^ 53 \<le> x" using x by simp
  with eq have q2: "q \<le> 2 * x" by linarith
  have "r - 100 * x = (r - q * 100) + 100 * (q - x)" by simp
  then have "\<bar>r - 100 * x\<bar> \<le> \<bar>r - q * 100\<bar> + \<bar>100 * (q - x)\<bar>"
    by (metis abs_triangle_ineq)
  moreover have "\<bar>100 * (q - x)\<bar> = 100 * \<bar>q - x\<bar>"
    by (subst abs_mult) simp
  ultimately have "\<bar>r - 100 * x\<bar> \<le> \<bar>r - q * 100\<bar> + 100 * \<bar>q - x\<bar>"
    by simp
  also have "\<dots> \<le> q * 100 / 2 ^ 53 + 100 * (x / 2 ^ 53)"
    using er eq by (intro add_mono mult_left_mono) simp_all
  also have "\<dots> \<le> 300 * x / 2 ^ 53"
    using q2 by simp
  finally have bound: "\<bar>r - 100 * x\<bar> \<le> 300 * x / 2 ^ 53" .
  have "(of_nat f :: rat) < of_nat (2 ^ 32)"
    using f by (simp only: of_nat_less_iff)
  then have fr: "(of_nat f :: rat) < 2 ^ 32" by simp
  have pr: "(0 :: rat) < of_nat p" using p by simp
  have "300 * x / 2 ^ 53 = (300 * of_nat f / 2 ^ 53) / of_nat p"
    by (simp add: x_def)
  also have "\<dots> < (1 / 2) / of_nat p"
    using fr pr by (intro divide_strict_right_mono) simp_all
  also have "\<dots> = 1 / (2 * of_nat p)" by simp
  finally have "300 * x / 2 ^ 53 < 1 / (2 * of_nat p)" .
  with bound have "\<bar>r - 100 * x\<bar> < 1 / (2 * of_nat p)" by linarith
  moreover have "r = js_times (js_divide (of_nat f) (of_nat p)) 100"
    by (simp add: r_def q_def x_def js_times_def js_divide_def)
  moreover have "100 * x = 100 * of_nat f / of_nat p" by (simp add: x_def)
  ultimately show ?thesis by simp
qed

lemma round_near:
  fixes f p :: nat and r :: rat
  assumes p: "0 < p" and near: "\<bar>r - 100 * of_nat f / of_nat p\<bar> < 1 / (2 * of_nat p)"
  shows "\<not> is_tie f p \<Longrightarrow> Math_round r = Math_round (100 * of_nat f / of_nat p)"
    and "is_tie f p \<Longrightarrow> Math_round r = Math_round (100 * of_nat f / of_nat p)
                    \<or> Math_round r = Math_round (100 * of_nat f / of_nat p) - 1"
proof -
  define N :: int where "N = 2 * int p"
  define M :: int where "M = 200 * int f + int p"
  define v :: rat where "v = 100 * of_nat f / of_nat p"
  define k where "k = M div N"
  have N: "0 < N" "2 \<le> N" using p by (simp_all add: N_def)
  have w: "v + 1 / 2 = of_int M / of_int N"
    using p by (simp add: v_def M_def N_def field_simps)
  have k: "Math_round v = k"
    by (simp add: Math_round_def w k_def floor_divide_of_int_eq)
  have split: "of_int M / of_int N = (of_int k :: rat) + of_int (M mod N) / of_int N"
  proof -
    have "M = N * k + M mod N" by (simp add: k_def)
    then have "(of_int M :: rat) = of_int N * of_int k + of_int (M mod N)"
      by (metis of_int_add of_int_mult)
    then show ?thesis using N by (simp add: field_simps)
  qed
  have d: "1 / (2 * of_nat p) = 1 / (of_int N :: rat)"
    by (simp add: N_def)
  have tie: "is_tie f p \<longleftrightarrow> M mod N = 0"
  proof -
    have "is_tie f p \<longleftrightarrow> int (2 * p) dvd int (200 * f + p)"
      unfolding is_tie_def by (simp only: int_dvd_int_iff)
    also have "\<dots> \<longleftrightarrow> N dvd M" by (simp add: N_def M_def)
    finally show ?thesis by (simp add: dvd_eq_mod_eq_0)
  qed
  have rw: "r + 1 / 2 = of_int k + of_int (M mod N) / of_int N + (r - v)"
    using w split by linarith
  have nr: "\<bar>r - v\<bar> < 1 / of_int N"
    using near by (simp add: v_def d)
  {
    assume "\<not> is_tie f p"
    then have "M mod N \<noteq> 0" by (simp add: tie)
    moreover have "0 \<le> M mod N" "M mod N < N" using N by simp_all
    ultimately have m: "1 \<le> M mod N" "M mod N \<le> N - 1" by simp_all
    have "(of_int 1 :: rat) \<le> of_int (M mod N)" using m(1) by (simp only: of_int_le_iff)
    then have lo: "1 / of_int N \<le> (of_int (M mod N) :: rat) / of_int N"
      using N by (simp add: divide_right_mono)
    have "(of_int (M mod N) :: rat) \<le> of_int (N - 1)" using m(2) by (simp only: of_int_le_iff)
    then have "(of_int (M mod N) :: rat) / of_int N \<le> of_int (N - 1) / of_int N"
      using N by (simp add: divide_right_mono)
    also have "(of_int (N - 1) :: rat) / of_int N = 1 - 1 / of_int N"
      using N by (simp add: field_simps)
    finally have hi: "(of_int (M mod N) :: rat) / of_int N \<le> 1 - 1 / of_int N" .
    have "of_int k \<le> r + 1 / 2" "r + 1 / 2 < of_int k + 1"
      using rw lo hi nr by linarith+
    then have "\<lfloor>r + 1 / 2\<rfloor> = k" by (simp add: floor_unique)
    then show "Math_round r = Math_round (100 * of_nat f / of_nat p)"
      using k by (simp add: Math_round_def v_def)
  }
  {
    assume "is_tie f p"
    then have z: "M mod N = 0" by (simp add: tie)
    have "(1::rat) / of_int N \<le> 1 / 2"
      using N by (simp add: field_simps)
    with rw z nr have "of_int k - 1 \<le> r + 1 / 2" "r + 1 / 2 < of_int k + 1"
      by simp_all
    then have "\<lfloor>r + 1 / 2\<rfloor> = k - 1 \<or> \<lfloor>r + 1 / 2\<rfloor> = k"
      by (metis add.commute floor_unique linorder_not_less of_int_1 of_int_diff diff_add_cancel
          le_floor_iff floor_less_iff)
    then show "Math_round r = Math_round (100 * of_nat f / of_nat p)
                    \<or> Math_round r = Math_round (100 * of_nat f / of_nat p) - 1"
      using k by (auto simp: Math_round_def v_def)
  }
qed

lemma stats_fields:
  "total (stats ws) = length ws"
  "processed (stats ws) = length (filter (\<lambda>w. status w = COMPLETED \<or> status w = FAILED) ws)"
  "found (stats ws) = length (filter (\<lambda>w. emails w \<noteq> []) ws)"
  "successRate (stats ws) =
     (if 0 < processed (stats ws)
      then Math_round (js_times (js_divide (of_nat (found (stats ws))) (of_nat (processed (stats ws)))) 100)
      else 0)"
  by (simp_all add: stats_def Let_def)

text \<open>
  C4, as stated, fails in its last formula: the quotient and the product are rounded to
  doubles before \<open>Math.round\<close> sees them. For 23 records with emails among 40 processed
  ones, \<open>(23 / 40) * 100\<close> is the double just below 57.5, and the rate shown is 57, while
  \<open>100 * 23 / 40 = 57.5\<close> rounds to 58.
\<close>

theorem stats_rounding_counterexample:
  "total (stats (map (example_record 23) [0..<40])) = 40
   \<and> processed (stats (map (example_record 23) [0..<40])) = 40
   \<and> found (stats (map (example_record 23) [0..<40])) = 23
   \<and> successRate (stats (map (example_record 23) [0..<40])) = 57
   \<and> Math_round (100 * of_nat 23 / of_nat 40) = 58"
  by code_simp

text \<open>
  C4, amended. For every record list, total is the number of records, processed the number
  of COMPLETED or FAILED records, found the number of records with at least one email;
  successRate is 0 when processed is 0, and otherwise \<open>Math.round\<close> of the double
  \<open>(found / processed) * 100\<close>. For a list of fewer than \<open>2\<^sup>3\<^sup>2\<close> records (every
  JavaScript array) that is \<open>round(100 * found / processed)\<close>, a tie going up, whenever
  \<open>100 * found / processed\<close> is not exactly halfway between two integers; when it is, the
  rate is that integer or the one below it. For the four records of the example the result
  is total 4, processed 3, found 2, successRate 67.
\<close>

theorem stats_amended:
  "total (stats ws) = length ws
   \<and> processed (stats ws) = length (filter (\<lambda>w. status w = COMPLETED \<or> status w = FAILED) ws)
   \<and> found (stats ws) = length (filter (\<lambda>w. length (emails w) > 0) ws)
   \<and> (processed (stats ws) = 0 \<longrightarrow> successRate (stats ws) = 0)
   \<and> (0 < processed (stats ws) \<longrightarrow>
        successRate (stats ws)
          = Math_round (js_times (js_divide (of_nat (found (stats ws)))
                                            (of_nat (processed (stats ws)))) 100))
   \<and> (0 < processed (stats ws) \<and> length ws < 2 ^ 32
          \<and> \<not> is_tie (found (stats ws)) (processed (stats ws)) \<longrightarrow>
        successRate (stats ws)
          = Math_round (100 * of_nat (found (stats ws)) / of_nat (processed (stats ws))))
   \<and> (0 < processed (stats ws) \<and> length ws < 2 ^ 32
          \<and> is_tie (found (stats ws)) (processed (stats ws)) \<longrightarrow>
        successRate (stats ws)
          = Math_round (100 * of_nat (found (stats ws)) / of_nat (processed (stats ws)))
        \<or> successRate (stats ws)
          = Math_round (100 * of_nat (found (stats ws)) / of_nat (processed (stats ws))) - 1)"
proof -
  let ?f = "found (stats ws)" and ?p = "processed (stats ws)"
  have near: "\<bar>js_times (js_divide (of_nat ?f) (of_nat ?p)) 100 - 100 * of_nat ?f / of_nat ?p\<bar>
           < 1 / (2 * of_nat ?p)" if "0 < ?p" "length ws < 2 ^ 32"
  proof -
    have "?f \<le> length ws" by (simp add: stats_fields)
    with that(2) have "?f < 2 ^ 32" by simp
    with that(1) show ?thesis by (rule percentage_error)
  qed
  have a: "successRate (stats ws) = Math_round (100 * of_nat ?f / of_nat ?p)"
    if "0 < ?p" "length ws < 2 ^ 32" "\<not> is_tie ?f ?p"
    using round_near(1) [OF that(1) near [OF that(1,2)] that(3)] that(1)
    by (simp add: stats_fields(4))
  have b: "successRate (stats ws) = Math_round (100 * of_nat ?f / of_nat ?p)
         \<or> successRate (stats ws) = Math_round (100 * of_nat ?f / of_nat ?p) - 1"
    if "0 < ?p" "length ws < 2 ^ 32" "is_tie ?f ?p"
    using round_near(2) [OF that(1) near [OF that(1,2)] that(3)] that(1)
    by (simp add: stats_fields(4))
  have c: "found (stats ws) = length (filter (\<lambda>w. length (emails w) > 0) ws)"
    by (simp add: stats_def Let_def)
  show ?thesis
    using a b c by (simp add: stats_fields)
qed

theorem stats_amended_witness:
  "total (stats four_sites) = 4 \<and> processed (stats four_sites) = 3
   \<and> found (stats four_sites) = 2 \<and> successRate (stats four_sites) = 67
   \<and> length four_sites < 2 ^ 32
   \<and> \<not> is_tie (found (stats four_sites)) (processed (stats four_sites))
   \<and> Math_round (100 * of_nat (found (stats four_sites)) / of_nat (processed (stats four_sites))) = 67"
proof -
  have t: "total (stats four_sites) = 4" and p: "processed (stats four_sites) = 3"
    and f: "found (stats four_sites) = 2"
    by (simp_all add: stats_fields four_sites_def)
  have l: "length four_sites < 2 ^ 32" by (simp add: four_sites_def)
  have n: "\<not> is_tie (found (stats four_sites)) (processed (stats four_sites))"
    by (simp add: p f is_tie_def)
  have "Math_round (100 * of_nat 2 / of_nat 3) = 67"
    by code_simp
  then have m: "Math_round (100 * of_nat (found (stats four_sites)) / of_nat (processed (stats four_sites))) = 67"
    by (simp only: p f)
  have pos: "0 < processed (stats four_sites)" by (simp add: p)
  note exact = stats_amended [of four_sites, THEN conjunct2, THEN conjunct2, THEN conjunct2,
      THEN conjunct2, THEN conjunct2, THEN conjunct1]
  have "successRate (stats four_sites)
          = Math_round (100 * of_nat (found (stats four_sites)) / of_nat (processed (stats four_sites)))"
    using exact pos l n by blast
  with m have r: "successRate (stats four_sites) = 67" by simp
  from t p f r l n m show ?thesis by blast
qed

lemma binade_1: "binade 1 = 0"
  by code_simp

lemma binade_100: "binade 100 = 6"
  by code_simp

lemma fl64_le_1: "0 < x \<Longrightarrow> x \<le> 1 \<Longrightarrow> fl64 x \<le> 1"
  by (rule fl64_le [where m = "2 ^ 52"]) (simp_all add: binade_1 pow2_def)

lemma fl64_le_100: "0 < x \<Longrightarrow> x \<le> 100 \<Longrightarrow> fl64 x \<le> 100"
  by (rule fl64_le [where m = "100 * 2 ^ 46"]) (simp_all add: binade_100 pow2_def)

lemma percentage_range:
  fixes f p :: nat
  assumes "0 < p" "f \<le> p"
  shows "0 \<le> Math_round (js_times (js_divide (of_nat f) (of_nat p)) 100)"
    and "Math_round (js_times (js_divide (of_nat f) (of_nat p)) 100) \<le> 100"
proof -
  define q where "q = fl64 (of_nat f / of_nat p)"
  define r where "r = fl64 (q * 100)"
  have x: "(0::rat) \<le> of_nat f / of_nat p" "(of_nat f :: rat) / of_nat p \<le> 1"
    using assms by simp_all
  have q: "0 \<le> q" "q \<le> 1"
  proof -
    show "0 \<le> q" unfolding q_def using x(1) by (rule fl64_nonneg)
    show "q \<le> 1"
    proof (cases "(of_nat f :: rat) / of_nat p = 0")
      case True
      show ?thesis unfolding q_def True by simp
    next
      case False
      with x have "(0::rat) < of_nat f / of_nat p" by simp
      then show ?thesis unfolding q_def using x(2) by (rule fl64_le_1)
    qed
  qed
  have r: "0 \<le> r" "r \<le> 100"
  proof -
    show "0 \<le> r" unfolding r_def using q(1) by (intro fl64_nonneg) simp
    show "r \<le> 100"
    proof (cases "q = 0")
      case True
      then show ?thesis by (simp add: r_def)
    next
      case False
      with q have "0 < q * 100" "q * 100 \<le> 100" by simp_all
      then show ?thesis unfolding r_def by (rule fl64_le_100)
    qed
  qed
  have eq: "js_times (js_divide (of_nat f) (of_nat p)) 100 = r"
    by (simp add: r_def q_def js_times_def js_divide_def)
  show "0 \<le> Math_round (js_times (js_divide (of_nat f) (of_nat p)) 100)"
    using r(1) by (simp add: eq Math_round_def)
  have "r + 1 / 2 < of_int 101" using r(2) by simp
  then have "\<lfloor>r + 1 / 2\<rfloor> < 101" by (simp only: floor_less_iff)
  then show "Math_round (js_times (js_divide (of_nat f) (of_nat p)) 100) \<le> 100"
    by (simp add: eq Math_round_def)
qed

lemma length_filter_mono:
  "(\<And>x. x \<in> set xs \<Longrightarrow> P x \<Longrightarrow> Q x) \<Longrightarrow> length (filter P xs) \<le> length (filter Q xs)"
  by (induction xs) auto

text \<open>
  C10. In every reachable state a record that holds an email is COMPLETED; hence found is
  at most processed, and successRate lies between 0 and 100.
\<close>

theorem emails_only_when_COMPLETED:
  assumes "reachable s"
  shows "(\<forall>w \<in> set (websites s). emails w \<noteq> [] \<longrightarrow> status w = COMPLETED)
    \<and> found (stats (websites s)) \<le> processed (stats (websites s))
    \<and> 0 \<le> successRate (stats (websites s))
    \<and> successRate (stats (websites s)) \<le> 100"
proof -
  let ?ws = "websites s"
  have c: "\<forall>w \<in> set ?ws. emails w \<noteq> [] \<longrightarrow> status w = COMPLETED"
    using reachable_invariant [OF assms] by (simp add: invariant_def good_record_def)
  have le: "found (stats ?ws) \<le> processed (stats ?ws)"
    unfolding stats_fields using c by (intro length_filter_mono) auto
  have "0 \<le> successRate (stats ?ws) \<and> successRate (stats ?ws) \<le> 100"
  proof (cases "0 < processed (stats ?ws)")
    case True
    from percentage_range [OF True le] True show ?thesis
      by (simp add: stats_fields(4))
  next
    case False
    then show ?thesis by (simp add: stats_fields(4))
  qed
  with c le show ?thesis by simp
qed

theorem emails_only_when_COMPLETED_witness:
  "reachable after_lookups
   \<and> found (stats (websites after_lookups)) = 1
   \<and> processed (stats (websites after_lookups)) = 2
   \<and> found (stats (websites after_lookups)) \<le> processed (stats (websites after_lookups))
   \<and> successRate (stats (websites after_lookups)) = 50
   \<and> successRate (stats (websites after_lookups)) \<le> 100"
proof -
  have f: "found (stats (websites after_lookups)) = 1"
    and p: "processed (stats (websites after_lookups)) = 2"
    by (simp_all add: stats_fields after_lookups_eq)
  have "Math_round (js_times (js_divide (of_nat 1) (of_nat 2)) 100) = 50"
    by code_simp
  then have r: "successRate (stats (websites after_lookups)) = 50"
    using p f by (simp add: stats_fields(4))
  note main = emails_only_when_COMPLETED [OF reachable_after_lookups]
  have "found (stats (websites after_lookups)) \<le> processed (stats (websites after_lookups))"
    and "successRate (stats (websites after_lookups)) \<le> 100"
    using main by blast+
  with reachable_after_lookups f p r show ?thesis by blast
qed

end
